theory Spec2Isabelle
  imports Main "HOL-Library.Word" "HOL-Library.Log_Nat"
begin

section \<open>JavaScript strings\<close>

text \<open>
  A JavaScript string is a sequence of UTF-16 code units.  String literals of the
  source are written with \<open>lit\<close>, single characters with \<open>ch\<close>.
\<close>

type_synonym jschar = "16 word"
type_synonym jsstring = "jschar list"

abbreviation ch :: "char \<Rightarrow> jschar" where
  "ch c \<equiv> of_char c"

definition lit :: "string \<Rightarrow> jsstring" where
  "lit s = map ch s"

text \<open>
  \<open>String.prototype.trim\<close> removes leading and trailing white space and line
  terminators (ECMAScript \<open>WhiteSpace\<close> and \<open>LineTerminator\<close>): TAB, LF, VT, FF,
  CR, SP, NBSP, the Unicode space separators, LS, PS and the byte order mark.
\<close>

definition is_whitespace :: "jschar \<Rightarrow> bool" where
  "is_whitespace c \<longleftrightarrow>
     c \<in> {0x09, 0x0A, 0x0B, 0x0C, 0x0D, 0x20, 0xA0, 0x1680, 0x2028, 0x2029,
          0x202F, 0x205F, 0x3000, 0xFEFF}
     \<or> (0x2000 \<le> c \<and> c \<le> 0x200A)"

definition trim :: "jsstring \<Rightarrow> jsstring" where
  "trim s = rev (dropWhile is_whitespace (rev (dropWhile is_whitespace s)))"

definition is_digit :: "jschar \<Rightarrow> bool" where
  "is_digit c \<longleftrightarrow> 0x30 \<le> c \<and> c \<le> 0x39"

definition digit_val :: "jschar \<Rightarrow> int" where
  "digit_val c = uint c - 48"

definition digits_val :: "jsstring \<Rightarrow> int" where
  "digits_val ds = foldl (\<lambda>a c. 10 * a + digit_val c) 0 ds"

fun decimal :: "nat \<Rightarrow> jsstring" where
  "decimal n = (if n < 10 then [of_nat (48 + n)] else decimal (n div 10) @ [of_nat (48 + n mod 10)])"

declare decimal.simps [simp del]

section \<open>JavaScript numbers\<close>

datatype jsnum = NaN | PosInf | NegInf | Fin rat

definition floor_log2 :: "rat \<Rightarrow> int" where
  "floor_log2 a =
     (let (p, q) = quotient_of a; k = bitlen p - bitlen q
      in if power_int 2 k \<le> a then k else k - 1)"

definition round_half_even :: "rat \<Rightarrow> int" where
  "round_half_even x =
     (let f = \<lfloor>x\<rfloor>; d = x - of_int f
      in if d < 1 / 2 then f else if 1 / 2 < d then f + 1 else if even f then f else f + 1)"

text \<open>
  Rounding to the nearest double, ties to even: with \<open>e\<close> the binary exponent of \<open>x\<close>
  (at least that of the smallest normal number), the doubles around \<open>x\<close> are the
  multiples of \<open>2 ^ (e - 52)\<close>; a result of \<open>2 ^ 1024\<close> or more, which is \<open>2 ^ 53\<close>
  multiples at the exponent 1023, is infinite.
\<close>

definition round_double :: "rat \<Rightarrow> jsnum" where
  "round_double x =
     (if x = 0 then Fin 0
      else
        let e = max (floor_log2 \<bar>x\<bar>) (- 1022);
            ulp = power_int 2 (e - 52);
            m = round_half_even (\<bar>x\<bar> / ulp)
        in if 1024 \<le> e \<or> (e = 1023 \<and> m = 9007199254740992)
           then (if 0 < x then PosInf else NegInf)
           else Fin (sgn x * of_int m * ulp))"

text \<open>
  \<open>Number(s)\<close> on a string is \<open>StringToNumber\<close>: white space is stripped on both
  sides, the empty string is 0, a \<open>StrNumericLiteral\<close> is a decimal literal with an
  optional sign (or \<open>Infinity\<close>) or an unsigned binary, octal or hexadecimal integer, and
  everything else is \<open>NaN\<close>.  The mathematical value is rounded to the nearest double.
\<close>

definition str_exponent :: "jsstring \<Rightarrow> int option" where
  "str_exponent r =
     (case r of
        [] \<Rightarrow> Some 0
      | c # r1 \<Rightarrow>
          if c = ch CHR ''e'' \<or> c = ch CHR ''E'' then
            (let (neg, ds) =
               (case r1 of
                  [] \<Rightarrow> (False, r1)
                | s # r2 \<Rightarrow>
                    if s = ch CHR ''-'' then (True, r2)
                    else if s = ch CHR ''+'' then (False, r2) else (False, r1))
             in if ds \<noteq> [] \<and> list_all is_digit ds
                then Some (if neg then - digits_val ds else digits_val ds)
                else None)
          else None)"

definition str_unsigned_decimal :: "jsstring \<Rightarrow> rat option" where
  "str_unsigned_decimal t =
     (let ip = takeWhile is_digit t; r1 = dropWhile is_digit t;
          (fp, r2) =
            (case r1 of
               [] \<Rightarrow> ([], r1)
             | c # r \<Rightarrow>
                 if c = ch CHR ''.'' then (takeWhile is_digit r, dropWhile is_digit r)
                 else ([], r1))
      in if ip = [] \<and> fp = [] then None
         else
           (case str_exponent r2 of
              None \<Rightarrow> None
            | Some e \<Rightarrow>
                Some (of_int (digits_val (ip @ fp)) * power_int 10 (e - int (length fp)))))"

definition str_decimal :: "jsstring \<Rightarrow> jsnum option" where
  "str_decimal t =
     (let (neg, u) =
        (case t of
           [] \<Rightarrow> (False, t)
         | c # r \<Rightarrow>
             if c = ch CHR ''-'' then (True, r)
             else if c = ch CHR ''+'' then (False, r) else (False, t))
      in if u = lit ''Infinity'' then Some (if neg then NegInf else PosInf)
         else map_option (\<lambda>x. round_double (if neg then - x else x)) (str_unsigned_decimal u))"

definition is_hex_digit :: "jschar \<Rightarrow> bool" where
  "is_hex_digit c \<longleftrightarrow>
     is_digit c \<or> (0x41 \<le> c \<and> c \<le> 0x46) \<or> (0x61 \<le> c \<and> c \<le> 0x66)"

definition hex_val :: "jschar \<Rightarrow> int" where
  "hex_val c =
     (if is_digit c then uint c - 48
      else if 0x41 \<le> c \<and> c \<le> 0x46 then uint c - 55
      else uint c - 87)"

definition radix_val :: "int \<Rightarrow> jsstring \<Rightarrow> int" where
  "radix_val b ds = foldl (\<lambda>a c. b * a + hex_val c) 0 ds"

definition non_decimal :: "jsstring \<Rightarrow> int option" where
  "non_decimal t =
     (case t of
        c0 # c1 # ds \<Rightarrow>
          if c0 \<noteq> ch CHR ''0'' \<or> ds = [] then None
          else if (c1 = ch CHR ''x'' \<or> c1 = ch CHR ''X'') \<and> list_all is_hex_digit ds
            then Some (radix_val 16 ds)
          else if (c1 = ch CHR ''o'' \<or> c1 = ch CHR ''O'')
                  \<and> list_all (\<lambda>c. 0x30 \<le> c \<and> c \<le> 0x37) ds
            then Some (radix_val 8 ds)
          else if (c1 = ch CHR ''b'' \<or> c1 = ch CHR ''B'')
                  \<and> list_all (\<lambda>c. c = 0x30 \<or> c = 0x31) ds
            then Some (radix_val 2 ds)
          else None
      | _ \<Rightarrow> None)"

definition Number :: "jsstring \<Rightarrow> jsnum" where
  "Number s =
     (let t = trim s
      in if t = [] then Fin 0
         else
           (case non_decimal t of
              Some n \<Rightarrow> round_double (of_int n)
            | None \<Rightarrow> (case str_decimal t of Some x \<Rightarrow> x | None \<Rightarrow> NaN)))"


section \<open>JSON values and \<open>JSON.parse\<close>\<close>

text \<open>
  The values that \<open>JSON.parse\<close> produces.  An object is the list of its own
  properties in creation order; \<open>put\<close> is \<open>CreateDataProperty\<close>: a repeated key keeps
  its place and takes the new value.  (JavaScript enumerates keys that are array
  indices before the others; the order of enumeration is not modelled, and nothing
  below depends on it.)
\<close>

datatype json =
    JNull
  | JBool bool
  | JNum jsnum
  | JStr jsstring
  | JArr "json list"
  | JObj "(jsstring \<times> json) list"

fun put :: "'k \<Rightarrow> 'v \<Rightarrow> ('k \<times> 'v) list \<Rightarrow> ('k \<times> 'v) list" where
  "put k v [] = [(k, v)]"
| "put k v ((k', v') # kvs) = (if k = k' then (k, v) # kvs else (k', v') # put k v kvs)"

subsection \<open>Tokens\<close>

datatype token =
    LBrace | RBrace | LBrack | RBrack | Colon | Comma
  | TStr jsstring | TNum jsnum | TTrue | TFalse | TNull

definition is_json_ws :: "jschar \<Rightarrow> bool" where
  "is_json_ws c \<longleftrightarrow> c = 0x20 \<or> c = 0x09 \<or> c = 0x0A \<or> c = 0x0D"

definition escape_char :: "jschar \<Rightarrow> jschar option" where
  "escape_char e =
     (if e = 0x22 \<or> e = 0x5C \<or> e = 0x2F then Some e
      else if e = ch CHR ''b'' then Some 0x08
      else if e = ch CHR ''f'' then Some 0x0C
      else if e = ch CHR ''n'' then Some 0x0A
      else if e = ch CHR ''r'' then Some 0x0D
      else if e = ch CHR ''t'' then Some 0x09
      else None)"

text \<open>The characters of a string literal after its opening quote, and the rest.\<close>

fun lex_string :: "jsstring \<Rightarrow> (jsstring \<times> jsstring) option" where
  "lex_string [] = None"
| "lex_string (c # cs) =
     (if c = 0x22 then Some ([], cs)
      else if c = 0x5C then
        (case cs of
           [] \<Rightarrow> None
         | e # r \<Rightarrow>
             if e = ch CHR ''u'' then
               (case r of
                  h1 # h2 # h3 # h4 # r' \<Rightarrow>
                    if list_all is_hex_digit [h1, h2, h3, h4]
                    then map_option (\<lambda>(s, t). (of_int (radix_val 16 [h1, h2, h3, h4]) # s, t))
                           (lex_string r')
                    else None
                | _ \<Rightarrow> None)
             else
               (case escape_char e of
                  None \<Rightarrow> None
                | Some x \<Rightarrow> map_option (\<lambda>(s, t). (x # s, t)) (lex_string r)))
      else if c < 0x20 then None
      else map_option (\<lambda>(s, t). (c # s, t)) (lex_string cs))"

text \<open>
  A number: \<open>-? (0 | [1-9][0-9]*) (. [0-9]+)? ([eE] [+-]? [0-9]+)?\<close>, its value rounded
  to a double.
\<close>

definition lex_digits :: "jsstring \<Rightarrow> (jsstring \<times> jsstring) option" where
  "lex_digits s =
     (let ds = takeWhile is_digit s
      in if ds = [] then None else Some (ds, dropWhile is_digit s))"

definition lex_int :: "jsstring \<Rightarrow> (jsstring \<times> jsstring) option" where
  "lex_int s =
     (case lex_digits s of
        None \<Rightarrow> None
      | Some (ds, r) \<Rightarrow> if hd ds = 0x30 \<and> tl ds \<noteq> [] then None else Some (ds, r))"

definition lex_frac :: "jsstring \<Rightarrow> (jsstring \<times> jsstring) option" where
  "lex_frac s =
     (case s of
        [] \<Rightarrow> Some ([], s)
      | c # r \<Rightarrow> if c = ch CHR ''.'' then lex_digits r else Some ([], s))"

definition lex_exp :: "jsstring \<Rightarrow> (int \<times> jsstring) option" where
  "lex_exp s =
     (case s of
        [] \<Rightarrow> Some (0, s)
      | c # r \<Rightarrow>
          if c = ch CHR ''e'' \<or> c = ch CHR ''E'' then
            (case r of
               [] \<Rightarrow> None
             | g # r1 \<Rightarrow>
                 if g = ch CHR ''-'' then
                   map_option (\<lambda>(ds, t). (- digits_val ds, t)) (lex_digits r1)
                 else if g = ch CHR ''+'' then
                   map_option (\<lambda>(ds, t). (digits_val ds, t)) (lex_digits r1)
                 else map_option (\<lambda>(ds, t). (digits_val ds, t)) (lex_digits r))
          else Some (0, s))"

definition lex_number :: "jsstring \<Rightarrow> (jsnum \<times> jsstring) option" where
  "lex_number s =
     (let (neg, s1) =
        (case s of [] \<Rightarrow> (False, s) | c # r \<Rightarrow> if c = ch CHR ''-'' then (True, r) else (False, s))
      in case lex_int s1 of
           None \<Rightarrow> None
         | Some (ip, r1) \<Rightarrow>
             (case lex_frac r1 of
                None \<Rightarrow> None
              | Some (fp, r2) \<Rightarrow>
                  (case lex_exp r2 of
                     None \<Rightarrow> None
                   | Some (e, r3) \<Rightarrow>
                       Some (round_double
                               ((if neg then - 1 else 1) * of_int (digits_val (ip @ fp))
                                  * power_int 10 (e - int (length fp))),
                             r3))))"

fun strip_prefix :: "'a list \<Rightarrow> 'a list \<Rightarrow> 'a list option" where
  "strip_prefix [] ys = Some ys"
| "strip_prefix (x # xs) [] = None"
| "strip_prefix (x # xs) (y # ys) = (if x = y then strip_prefix xs ys else None)"

lemma lex_string_length: "lex_string cs = Some (s, r) \<Longrightarrow> length r < length cs"
proof (induction cs arbitrary: s r rule: lex_string.induct)
  case 1
  then show ?case by simp
next
  case (2 c cs)
  then show ?case
    by (fastforce split: if_splits list.splits option.splits)
qed

lemma lex_digits_length: "lex_digits s = Some (ds, r) \<Longrightarrow> length r < length s"
proof -
  assume a: "lex_digits s = Some (ds, r)"
  then have "takeWhile is_digit s \<noteq> []" and "r = dropWhile is_digit s"
    by (auto simp: lex_digits_def Let_def split: if_splits)
  moreover have "length (takeWhile is_digit s) + length (dropWhile is_digit s) = length s"
    by (metis length_append takeWhile_dropWhile_id)
  ultimately show ?thesis by (cases "takeWhile is_digit s") auto
qed

lemma lex_number_length: "lex_number s = Some (n, r) \<Longrightarrow> length r < length s"
  by (fastforce simp: lex_number_def lex_int_def lex_frac_def lex_exp_def Let_def
      split: if_splits list.splits option.splits prod.splits dest: lex_digits_length)

lemma strip_prefix_length: "strip_prefix p xs = Some r \<Longrightarrow> length r + length p = length xs"
  by (induction p xs rule: strip_prefix.induct) (auto split: if_splits)

lemma strip_prefix_lit_length: "strip_prefix (lit (a # as)) xs = Some r \<Longrightarrow> length r < length xs"
  using strip_prefix_length [of "lit (a # as)" xs r] by (simp add: lit_def)

function tokenize :: "jsstring \<Rightarrow> token list option" where
  "tokenize [] = Some []"
| "tokenize (c # cs) =
     (if is_json_ws c then tokenize cs
      else if c = ch CHR ''{'' then map_option (Cons LBrace) (tokenize cs)
      else if c = ch CHR ''}'' then map_option (Cons RBrace) (tokenize cs)
      else if c = ch CHR ''['' then map_option (Cons LBrack) (tokenize cs)
      else if c = ch CHR '']'' then map_option (Cons RBrack) (tokenize cs)
      else if c = ch CHR '':'' then map_option (Cons Colon) (tokenize cs)
      else if c = ch CHR '','' then map_option (Cons Comma) (tokenize cs)
      else if c = 0x22 then
        (case lex_string cs of
           None \<Rightarrow> None
         | Some (s, r) \<Rightarrow> map_option (Cons (TStr s)) (tokenize r))
      else if c = ch CHR ''-'' \<or> is_digit c then
        (case lex_number (c # cs) of
           None \<Rightarrow> None
         | Some (n, r) \<Rightarrow> map_option (Cons (TNum n)) (tokenize r))
      else
        (case strip_prefix (lit ''true'') (c # cs) of
           Some r \<Rightarrow> map_option (Cons TTrue) (tokenize r)
         | None \<Rightarrow>
             (case strip_prefix (lit ''false'') (c # cs) of
                Some r \<Rightarrow> map_option (Cons TFalse) (tokenize r)
              | None \<Rightarrow>
                  (case strip_prefix (lit ''null'') (c # cs) of
                     Some r \<Rightarrow> map_option (Cons TNull) (tokenize r)
                   | None \<Rightarrow> None))))"
  by pat_completeness auto
termination
proof (relation "measure length")
  show "wf (measure length)" by simp
qed (auto dest: lex_string_length lex_number_length strip_prefix_lit_length)

declare tokenize.simps [simp del]

subsection \<open>The grammar\<close>

text \<open>
  The pushdown recogniser of the JSON grammar over the tokens.  A frame is an array
  under construction (its elements so far) or an object member waiting for its value
  (the properties so far and the key).  \<open>parse_value\<close> stands before a value,
  \<open>parse_next\<close> after one.
\<close>

datatype frame = ArrayF "json list" | MemberF "(jsstring \<times> json) list" jsstring

fun parse_value :: "frame list \<Rightarrow> token list \<Rightarrow> json option"
  and parse_next :: "json \<Rightarrow> frame list \<Rightarrow> token list \<Rightarrow> json option" where
  "parse_value st [] = None"
| "parse_value st (t # ts) =
     (case t of
        TNull \<Rightarrow> parse_next JNull st ts
      | TTrue \<Rightarrow> parse_next (JBool True) st ts
      | TFalse \<Rightarrow> parse_next (JBool False) st ts
      | TNum n \<Rightarrow> parse_next (JNum n) st ts
      | TStr s \<Rightarrow> parse_next (JStr s) st ts
      | LBrack \<Rightarrow>
          (case ts of
             RBrack # ts' \<Rightarrow> parse_next (JArr []) st ts'
           | _ \<Rightarrow> parse_value (ArrayF [] # st) ts)
      | LBrace \<Rightarrow>
          (case ts of
             RBrace # ts' \<Rightarrow> parse_next (JObj []) st ts'
           | TStr k # Colon # ts' \<Rightarrow> parse_value (MemberF [] k # st) ts'
           | _ \<Rightarrow> None)
      | _ \<Rightarrow> None)"
| "parse_next v [] ts = (if ts = [] then Some v else None)"
| "parse_next v (f # st) [] = None"
| "parse_next v (ArrayF xs # st) (t # ts) =
     (case t of
        Comma \<Rightarrow> parse_value (ArrayF (xs @ [v]) # st) ts
      | RBrack \<Rightarrow> parse_next (JArr (xs @ [v])) st ts
      | _ \<Rightarrow> None)"
| "parse_next v (MemberF kvs k # st) (t # ts) =
     (case t of
        Comma \<Rightarrow>
          (case ts of
             TStr k' # Colon # ts' \<Rightarrow> parse_value (MemberF (put k v kvs) k' # st) ts'
           | _ \<Rightarrow> None)
      | RBrace \<Rightarrow> parse_next (JObj (put k v kvs)) st ts
      | _ \<Rightarrow> None)"

definition JSON_parse :: "jsstring \<Rightarrow> json option" where
  "JSON_parse s = (case tokenize s of None \<Rightarrow> None | Some ts \<Rightarrow> parse_value [] ts)"


section \<open>The backing file and the module cache\<close>

text \<open>
  A text is a sequence of characters, or the output of \<open>JSON.stringify(v, null, k)\<close>
  kept symbolically as \<open>Stringified k v\<close> (\<open>k = 0\<close> for \<open>JSON.stringify(v)\<close>).
  Parsing such an output gives the value back, except that \<open>JSON.stringify\<close> writes a
  number that is not finite as \<open>null\<close>.
\<close>

datatype jstext = Chars jsstring | Stringified nat json

primrec reparse :: "json \<Rightarrow> json" where
  "reparse JNull = JNull"
| "reparse (JBool b) = JBool b"
| "reparse (JNum n) = (case n of Fin x \<Rightarrow> JNum n | _ \<Rightarrow> JNull)"
| "reparse (JStr s) = JStr s"
| "reparse (JArr xs) = JArr (map reparse xs)"
| "reparse (JObj kvs) = JObj (map (map_prod id reparse) kvs)"

definition parse_text :: "jstext \<Rightarrow> json option" where
  "parse_text t = (case t of Chars s \<Rightarrow> JSON_parse s | Stringified k v \<Rightarrow> Some (reparse v))"

text \<open>
  The server reads the users with
  \<^verbatim>\<open>await import("./data/users.json", { with: { type: "json" } }).then((mod) => mod.default as any[])\<close>.
  A dynamic \<open>import()\<close> goes through the module map of the process: the first
  successful import reads and parses the file, and every later import of the same
  specifier yields the same module, whose default export is the same array object.
  \<open>users_module\<close> is that entry of the module map (\<open>None\<close> before the first
  successful import); \<open>users_json\<close> is the content of the file, which the source
  names \<open>./data/users.json\<close> when it imports and \<open>./src/data/users.json\<close> when it
  writes: the server is taken to run where both name the same file, and the file
  to exist.  A content that does not parse makes the import reject with a
  \<open>SyntaxError\<close>; ECMAScript leaves open whether a host remembers a failed import,
  and here it does not.
\<close>

datatype js_error = SyntaxError | TypeError

record world =
  users_module :: "json option"
  users_json :: jstext

definition import_users :: "world \<Rightarrow> (js_error + json) \<times> world" where
  "import_users w =
     (case users_module w of
        Some users \<Rightarrow> (Inr users, w)
      | None \<Rightarrow>
          (case parse_text (users_json w) of
             None \<Rightarrow> (Inl SyntaxError, w)
           | Some users \<Rightarrow> (Inr users, w\<lparr>users_module := Some users\<rparr>)))"

section \<open>createUser\<close>

text \<open>
  \<^verbatim>\<open>
  const id = users.length + 1;
  users.push({ id, ...params });
  await fs.writeFile("./src/data/users.json", JSON.stringify(users, null, 2));
  return id;
  \<close>
  \<open>users\<close> is typed \<open>any[]\<close> but is whatever the file holds: \<open>null.length\<close> throws,
  and on every other value that is not an array \<open>users.push\<close> is not a function, so
  the call throws a \<open>TypeError\<close> before anything is written.  \<open>push\<close> changes the
  array of the module map in place, and the write is taken to succeed.  The spread \<open>...params\<close> copies the own
  enumerable properties of \<open>params\<close>: the members of an object, the indexed elements
  of an array or of a string, nothing of another value; a property named \<open>id\<close>
  among them overwrites the new id.
\<close>

definition own_properties :: "json \<Rightarrow> (jsstring \<times> json) list" where
  "own_properties v =
     (case v of
        JObj kvs \<Rightarrow> kvs
      | JArr xs \<Rightarrow> map (\<lambda>i. (decimal i, xs ! i)) [0..<length xs]
      | JStr s \<Rightarrow> map (\<lambda>i. (decimal i, JStr [s ! i])) [0..<length s]
      | _ \<Rightarrow> [])"

definition new_record :: "nat \<Rightarrow> json \<Rightarrow> json" where
  "new_record new_id params =
     JObj (foldl (\<lambda>obj (k, v). put k v obj) [(lit ''id'', JNum (Fin (of_nat new_id)))]
             (own_properties params))"

definition createUser :: "json \<Rightarrow> world \<Rightarrow> (js_error + nat) \<times> world" where
  "createUser params w =
     (case import_users w of
        (Inl e, w1) \<Rightarrow> (Inl e, w1)
      | (Inr users, w1) \<Rightarrow>
          (case users of
             JArr us \<Rightarrow>
               (let new_id = length us + 1;
                    users' = JArr (us @ [new_record new_id params])
                in (Inr new_id, \<lparr>users_module = Some users', users_json = Stringified 2 users'\<rparr>))
           | _ \<Rightarrow> (Inl TypeError, w1)))"

section \<open>The tools\<close>

text \<open>
  A tool answers \<open>{ content: [{ type: "text", text }] }\<close>; \<open>Content text\<close> is that
  answer.  The SDK checks the arguments of \<open>create-user\<close> against the declared shape
  (four strings, \<open>email\<close> an e-mail address) before it calls the handler, so the
  handler is modelled on four strings.
\<close>

datatype tool_result = Content jsstring

record user_params =
  name :: jsstring
  email :: jsstring
  address :: jsstring
  phone :: jsstring

definition params_object :: "user_params \<Rightarrow> json" where
  "params_object p =
     JObj [(lit ''name'', JStr (name p)), (lit ''email'', JStr (email p)),
           (lit ''address'', JStr (address p)), (lit ''phone'', JStr (phone p))]"

definition created_message :: "nat \<Rightarrow> jsstring" where
  "created_message new_id = lit ''User '' @ decimal new_id @ lit '' created successfully''"

definition create_user_tool :: "user_params \<Rightarrow> world \<Rightarrow> tool_result \<times> world" where
  "create_user_tool p w =
     (case createUser (params_object p) w of
        (Inr new_id, w') \<Rightarrow> (Content (created_message new_id), w')
      | (Inl e, w') \<Rightarrow> (Content (lit ''Failed to save user''), w'))"

text \<open>
  \<open>create-random-user\<close> asks the client for a generated message; \<open>res.content\<close> is a
  text or something else (an image, audio).  The text goes through
  \<^verbatim>\<open>.trim().replace(/^```json/, "").replace(/```$/, "").trim()\<close>
  and \<open>JSON.parse\<close>, and the parsed value is handed to \<open>createUser\<close> as it is.
  The request to the client stands before the \<open>try\<close>; the handler is modelled from
  the result of the request on.
\<close>

datatype sampling_content = TextContent jsstring | OtherContent

definition remove_prefix :: "'a list \<Rightarrow> 'a list \<Rightarrow> 'a list" where
  "remove_prefix p s = (case strip_prefix p s of Some r \<Rightarrow> r | None \<Rightarrow> s)"

definition remove_suffix :: "'a list \<Rightarrow> 'a list \<Rightarrow> 'a list" where
  "remove_suffix p s = rev (remove_prefix (rev p) (rev s))"

definition strip_fence :: "jsstring \<Rightarrow> jsstring" where
  "strip_fence t = trim (remove_suffix (lit ''```'') (remove_prefix (lit ''```json'') (trim t)))"

definition create_random_user_tool :: "sampling_content \<Rightarrow> world \<Rightarrow> tool_result \<times> world" where
  "create_random_user_tool res w =
     (case res of
        OtherContent \<Rightarrow> (Content (lit ''Failed to generate user data''), w)
      | TextContent t \<Rightarrow>
          (case JSON_parse (strip_fence t) of
             None \<Rightarrow> (Content (lit ''Failed to generate user data''), w)
           | Some fakeUser \<Rightarrow>
               (case createUser fakeUser w of
                  (Inr new_id, w') \<Rightarrow> (Content (created_message new_id), w')
                | (Inl e, w') \<Rightarrow> (Content (lit ''Failed to generate user data''), w'))))"

section \<open>The resources\<close>

text \<open>
  A resource answers \<open>{ contents: [{ uri: uri.href, type: "application/json", text }] }\<close>;
  \<open>Contents href text\<close> is that answer, with \<open>None\<close> for a \<open>text\<close> that is
  \<open>undefined\<close> (\<open>JSON.stringify(undefined)\<close>).  The resource handlers have no
  \<open>try\<close>: what the import or the lookup throws leaves the handler.
\<close>

datatype resource_result = Contents jsstring "jstext option"

definition users_resource :: "jsstring \<Rightarrow> world \<Rightarrow> (js_error + resource_result) \<times> world" where
  "users_resource href w =
     (case import_users w of
        (Inl e, w1) \<Rightarrow> (Inl e, w1)
      | (Inr users, w1) \<Rightarrow> (Inr (Contents href (Some (Stringified 0 users))), w1))"

text \<open>
  \<^verbatim>\<open>const user = users.find((u) => u.id === Number(userId));\<close>
  \<open>u.id\<close> throws on \<open>null\<close>, is the member \<open>id\<close> of an object and \<open>undefined\<close> on
  every other value; \<open>===\<close> with a number holds for an equal number that is not
  \<open>NaN\<close>.  \<open>id_matches userId\<close> is the callback, and \<open>array_find\<close> is
  \<open>Array.prototype.find\<close>: the first element on which the callback is true, or
  \<open>undefined\<close>; what the callback throws, \<open>find\<close> throws.
\<close>

definition get_id :: "json \<Rightarrow> js_error + json option" where
  "get_id u =
     (case u of
        JNull \<Rightarrow> Inl TypeError
      | JObj kvs \<Rightarrow> Inr (map_of kvs (lit ''id''))
      | _ \<Rightarrow> Inr None)"

definition strict_eq_number :: "json option \<Rightarrow> jsnum \<Rightarrow> bool" where
  "strict_eq_number x n =
     (case x of Some (JNum m) \<Rightarrow> m \<noteq> NaN \<and> n \<noteq> NaN \<and> m = n | _ \<Rightarrow> False)"

definition id_matches :: "jsstring \<Rightarrow> json \<Rightarrow> js_error + bool" where
  "id_matches userId u =
     (case get_id u of
        Inl e \<Rightarrow> Inl e
      | Inr x \<Rightarrow> Inr (strict_eq_number x (Number userId)))"

fun array_find :: "('a \<Rightarrow> js_error + bool) \<Rightarrow> 'a list \<Rightarrow> js_error + 'a option" where
  "array_find f [] = Inr None"
| "array_find f (u # us) =
     (case f u of
        Inl e \<Rightarrow> Inl e
      | Inr b \<Rightarrow> if b then Inr (Some u) else array_find f us)"

definition not_found :: json where
  "not_found = JObj [(lit ''error'', JStr (lit ''User not found''))]"

definition user_details ::
  "jsstring \<Rightarrow> jsstring \<Rightarrow> world \<Rightarrow> (js_error + resource_result) \<times> world" where
  "user_details href userId w =
     (case import_users w of
        (Inl e, w1) \<Rightarrow> (Inl e, w1)
      | (Inr users, w1) \<Rightarrow>
          (case users of
             JArr us \<Rightarrow>
               (case array_find (id_matches userId) us of
                  Inl e \<Rightarrow> (Inl e, w1)
                | Inr user \<Rightarrow>
                    if user = Some JNull
                    then (Inr (Contents href (Some (Stringified 0 not_found))), w1)
                    else (Inr (Contents href (map_option (Stringified 0) user)), w1))
           | _ \<Rightarrow> (Inl TypeError, w1)))"


section \<open>Stores and sequences of operations\<close>

text \<open>
  Sequential calls of \<open>createUser\<close>, one after the other has finished, with the
  result of each.
\<close>

fun create_users :: "user_params list \<Rightarrow> world \<Rightarrow> (js_error + nat) list \<times> world" where
  "create_users [] w = ([], w)"
| "create_users (p # ps) w =
     (let (r, w1) = createUser (params_object p) w;
          (rs, w2) = create_users ps w1
      in (r # rs, w2))"

text \<open>
  The invariant of the data model: the record at position \<open>i\<close> (from 0) has the
  number \<open>i + 1\<close> as its \<open>id\<close>.  \<open>id_unused n us\<close>: reading the \<open>id\<close> of an
  element of \<open>us\<close> never throws and never gives the number \<open>n\<close>.
  \<open>appended n ps\<close> are the records that sequential calls with the fields \<open>ps\<close> add
  to a store of \<open>n\<close> records.
\<close>

definition id_number :: "nat \<Rightarrow> json option" where
  "id_number i = Some (JNum (Fin (of_nat i)))"

definition sequential_ids :: "json list \<Rightarrow> bool" where
  "sequential_ids us \<longleftrightarrow> map get_id us = map (\<lambda>i. Inr (id_number i)) [1..<Suc (length us)]"

definition id_unused :: "nat \<Rightarrow> json list \<Rightarrow> bool" where
  "id_unused n us \<longleftrightarrow>
     list_all (\<lambda>u. case get_id u of Inl e \<Rightarrow> False | Inr x \<Rightarrow> x \<noteq> id_number n) us"

definition appended :: "nat \<Rightarrow> user_params list \<Rightarrow> json list" where
  "appended n ps = map (\<lambda>(i, p). new_record i (params_object p)) (zip [Suc n..<Suc n + length ps] ps)"

text \<open>The empty store before its first use, and the field sets of the examples.\<close>

definition empty_store :: world where
  "empty_store = \<lparr>users_module = None, users_json = Chars (lit ''[]'')\<rparr>"

definition ana :: user_params where
  "ana = \<lparr>name = lit ''Ana'', email = lit ''ana@x.com'', address = lit ''1 Rd'', phone = lit ''555''\<rparr>"

definition bo :: user_params where
  "bo = \<lparr>name = lit ''Bo'', email = lit ''bo@x.com'', address = lit ''2 Rd'', phone = lit ''555''\<rparr>"

text \<open>
  A process that has not imported the file yet, the file holding the given
  characters; and a process that has imported a store of one record.
\<close>

definition unloaded :: "string \<Rightarrow> world" where
  "unloaded s = \<lparr>users_module = None, users_json = Chars (lit s)\<rparr>"

definition ana_record :: json where
  "ana_record = new_record 1 (params_object ana)"

definition one_user_store :: world where
  "one_user_store = \<lparr>users_module = Some (JArr [ana_record]), users_json = Stringified 2 (JArr [ana_record])\<rparr>"

text \<open>The generated text of the specification's example, without its fence.\<close>

definition bo_text :: jsstring where
  "bo_text = lit ''{\"name\":\"Bo\",\"email\":\"bo@x.com\",\"address\":\"2 Rd\",\"phone\":\"555\"}''"

section \<open>Calls in flight\<close>

text \<open>
  \<open>createUser\<close> gives up control at its two \<open>await\<close>s, the import and the write, so
  several calls can be in flight at once.  Between the two it runs without
  interruption: it reads the length of the array, pushes the record, serialises
  the array and issues the write.  \<open>createUser_push\<close> is this part, from the
  resumption after the import to the issued write: it returns the new id with the
  text handed to \<open>fs.writeFile\<close> and leaves the file as it is.  \<open>write_lands\<close> is
  the effect of a write that completes; the call returns its id then.

  All calls import the same specifier, so they share one module and one array,
  also when they started before the module was loaded: the module map has one
  entry for the specifier, and a load under way is shared.
\<close>

definition createUser_push :: "json \<Rightarrow> world \<Rightarrow> (js_error + nat \<times> jstext) \<times> world" where
  "createUser_push params w =
     (case import_users w of
        (Inl e, w1) \<Rightarrow> (Inl e, w1)
      | (Inr users, w1) \<Rightarrow>
          (case users of
             JArr us \<Rightarrow>
               (let new_id = length us + 1;
                    users' = JArr (us @ [new_record new_id params])
                in (Inr (new_id, Stringified 2 users'), w1\<lparr>users_module := Some users'\<rparr>))
           | _ \<Rightarrow> (Inl TypeError, w1)))"

definition write_lands :: "jstext \<Rightarrow> world \<Rightarrow> world" where
  "write_lands txt w = w\<lparr>users_json := txt\<rparr>"

text \<open>
  A server is the world, the writes that have been issued and have not completed
  yet, each with the id that its call will return, and the results of the calls
  that have finished, in the order in which they finished.  An event is the
  resumption of a call after its import (\<open>Resume p\<close>, the call with the fields
  \<open>p\<close>) or the completion of the \<open>k\<close>-th outstanding write (\<open>Land k\<close>, from 0).
  The source has no queue and no lock, and nothing orders the completion of the
  writes, so every list of events is a schedule; \<open>Land k\<close> without a \<open>k\<close>-th
  outstanding write changes nothing.  Each write is taken to replace the content
  of the file as a whole.  A call whose import or push throws finishes at once
  with the error.  \<open>resumed es\<close> are the calls of a schedule, in the order of
  their resumption, and \<open>idle w\<close> is the server with no call in flight.
\<close>

datatype event = Resume user_params | Land nat

record server =
  store :: world
  in_flight :: "(nat \<times> jstext) list"
  returned :: "(js_error + nat) list"

definition step :: "event \<Rightarrow> server \<Rightarrow> server" where
  "step e s =
     (case e of
        Resume p \<Rightarrow>
          (case createUser_push (params_object p) (store s) of
             (Inl err, w1) \<Rightarrow> s\<lparr>store := w1, returned := returned s @ [Inl err]\<rparr>
           | (Inr write, w1) \<Rightarrow> s\<lparr>store := w1, in_flight := in_flight s @ [write]\<rparr>)
      | Land k \<Rightarrow>
          (if k < length (in_flight s)
           then s\<lparr>store := write_lands (snd (in_flight s ! k)) (store s),
                  in_flight := take k (in_flight s) @ drop (Suc k) (in_flight s),
                  returned := returned s @ [Inr (fst (in_flight s ! k))]\<rparr>
           else s))"

definition run :: "event list \<Rightarrow> server \<Rightarrow> server" where
  "run es s = foldl (\<lambda>s e. step e s) s es"

fun resumed :: "event list \<Rightarrow> user_params list" where
  "resumed [] = []"
| "resumed (Resume p # es) = p # resumed es"
| "resumed (Land k # es) = resumed es"

definition idle :: "world \<Rightarrow> server" where
  "idle w = \<lparr>store = w, in_flight = [], returned = []\<rparr>"

section \<open>White space and digits\<close>

lemma whitespace_range: "is_whitespace x \<Longrightarrow> x < 0x21 \<or> 0x7E < x"
  unfolding is_whitespace_def word_less_nat_alt word_le_nat_alt by auto

lemma whitespace_not_digit: "is_whitespace x \<Longrightarrow> \<not> is_digit x"
  using whitespace_range [of x] unfolding is_digit_def word_less_nat_alt word_le_nat_alt by auto

lemma whitespace_not_hex: "is_whitespace x \<Longrightarrow> \<not> is_hex_digit x"
  using whitespace_range [of x] unfolding is_hex_digit_def is_digit_def word_less_nat_alt word_le_nat_alt
  by auto

lemma whitespace_not_printable: "is_whitespace x \<Longrightarrow> 0x21 \<le> c \<Longrightarrow> c \<le> 0x7E \<Longrightarrow> x \<noteq> c"
  using whitespace_range [of x] unfolding word_less_nat_alt word_le_nat_alt by auto

lemma printable_not_whitespace: "0x21 \<le> c \<Longrightarrow> c \<le> 0x7E \<Longrightarrow> \<not> is_whitespace c"
  using whitespace_range [of c] unfolding word_less_nat_alt word_le_nat_alt by auto

lemma whitespace_no_escape: "is_whitespace x \<Longrightarrow> escape_char x = None"
  using whitespace_range [of x] unfolding escape_char_def word_less_nat_alt word_le_nat_alt
  by (auto split: if_splits)

lemma json_ws_whitespace: "is_json_ws x \<Longrightarrow> is_whitespace x"
  by (auto simp: is_json_ws_def is_whitespace_def)

section \<open>Numbers and their decimal numerals\<close>

text \<open>
  An integer below \<open>2 ^ 53\<close> is a double, and \<open>Number\<close> reads its decimal numeral
  back: \<open>Number(String(n))\<close> is \<open>n\<close>.  The length of a JavaScript array is below
  \<open>2 ^ 32\<close>.
\<close>

lemma round_half_even_int: "round_half_even (of_int N) = N"
  by (simp add: round_half_even_def)

lemma quotient_of_of_int: "quotient_of (of_int n) = (n, 1)"
  by (metis Fract_of_int_eq quotient_of_Fract Rat.normalize_def normalize_stable coprime_1_right
      zero_less_one)

lemma floor_log2_int_bounds:
  assumes "0 < n" and "n < 2 ^ 53"
  shows "- 1 \<le> floor_log2 (of_int n) \<and> floor_log2 (of_int n) \<le> 52"
proof -
  have "bitlen n \<le> 53"
    using assms(2) by (simp add: bitlen_le_iff_power)
  moreover have "1 \<le> bitlen n"
    using assms(1) by (simp add: bitlen_ge_iff_power)
  moreover have "bitlen 1 = 1"
    using bitlen_twopow_add_eq [of 0 0] by simp
  ultimately show ?thesis
    by (auto simp: floor_log2_def quotient_of_of_int Let_def)
qed

lemma round_double_int:
  assumes "0 \<le> n" and "n < 2 ^ 53"
  shows "round_double (of_int n) = Fin (of_int n)"
proof (cases "n = 0")
  case True
  then show ?thesis by (simp add: round_double_def)
next
  case False
  with assms have pos: "0 < n" by simp
  define e where "e = floor_log2 (of_int n)"
  have e: "- 1 \<le> e" "e \<le> 52"
    using floor_log2_int_bounds [OF pos assms(2)] by (simp_all add: e_def)
  define k where "k = nat (52 - e)"
  have ulp: "power_int (2 :: rat) (e - 52) = 1 / 2 ^ k"
    using e by (simp add: power_int_def k_def nat_diff_distrib field_simps)
  have m: "round_half_even (rat_of_int n * 2 ^ k) = n * 2 ^ k"
    using round_half_even_int [of "n * 2 ^ k"] by simp
  have "\<bar>rat_of_int n\<bar> = of_int n" using pos by simp
  moreover have "max e (- 1022) = e" using e by simp
  moreover have "sgn (rat_of_int n) = 1" using pos by simp
  ultimately show ?thesis
    using False e by (simp add: round_double_def Let_def e_def [symmetric] ulp m)
qed


lemma digit_char:
  assumes "d < 10"
  shows "is_digit (of_nat (48 + d))" and "digit_val (of_nat (48 + d)) = int d"
    and "\<not> is_whitespace (of_nat (48 + d))"
proof -
  have "unat (of_nat (48 + d) :: jschar) = (48 + d) mod 2 ^ LENGTH(16)"
    by (rule unat_of_nat)
  then have u: "unat (of_nat (48 + d) :: jschar) = 48 + d"
    using assms by simp
  show "is_digit (of_nat (48 + d))"
    using assms unfolding is_digit_def word_le_nat_alt u by simp
  show "digit_val (of_nat (48 + d)) = int d"
    using u by (simp add: digit_val_def uint_nat)
  have "(0x21 :: jschar) \<le> of_nat (48 + d)" and "(of_nat (48 + d) :: jschar) \<le> 0x7E"
    using assms unfolding word_le_nat_alt u by simp_all
  then show "\<not> is_whitespace (of_nat (48 + d))"
    by (rule printable_not_whitespace)
qed

lemma digits_val_snoc: "digits_val (ds @ [c]) = 10 * digits_val ds + digit_val c"
  by (simp add: digits_val_def)

lemma decimal_digits:
  "list_all is_digit (decimal n) \<and> decimal n \<noteq> [] \<and> digits_val (decimal n) = int n"
proof (induction n rule: decimal.induct)
  case (1 n)
  show ?case
  proof (cases "n < 10")
    case True
    then show ?thesis
      using digit_char [of n] by (simp add: decimal.simps [of n] digits_val_def)
  next
    case False
    have "10 * (n div 10) + n mod 10 = n"
      by simp
    then have "int (10 * (n div 10) + n mod 10) = int n"
      by (rule arg_cong)
    then have "10 * int (n div 10) + int (n mod 10) = int n"
      by (simp only: of_nat_add of_nat_mult of_nat_numeral)
    with False show ?thesis
      using 1 digit_char [of "n mod 10"]
      by (simp add: decimal.simps [of n] digits_val_snoc)
  qed
qed

lemma trim_digits: "list_all is_digit ds \<Longrightarrow> trim ds = ds"
proof -
  assume d: "list_all is_digit ds"
  have n: "\<not> is_whitespace x" if "x \<in> set ds" for x
    using d that whitespace_not_digit [of x] by (auto simp: list_all_iff)
  have "dropWhile is_whitespace ds = ds"
    using n by (cases ds) auto
  moreover have "dropWhile is_whitespace (rev ds) = rev ds"
    using n by (cases "rev ds") (auto simp: rev_eq_Cons_iff)
  ultimately show ?thesis by (simp add: trim_def)
qed

lemma digit_not_letter:
  "is_digit c \<Longrightarrow> c \<noteq> ch CHR ''x'' \<and> c \<noteq> ch CHR ''X'' \<and> c \<noteq> ch CHR ''o'' \<and> c \<noteq> ch CHR ''O''
     \<and> c \<noteq> ch CHR ''b'' \<and> c \<noteq> ch CHR ''B'' \<and> c \<noteq> ch CHR ''-'' \<and> c \<noteq> ch CHR ''+''
     \<and> c \<noteq> ch CHR ''I''"
  by (auto simp: is_digit_def)

lemma Number_digits:
  assumes "list_all is_digit ds" and "ds \<noteq> []"
  shows "Number ds = round_double (of_int (digits_val ds))"
proof -
  obtain c cs where ds: "ds = c # cs" using assms(2) by (cases ds) auto
  have c: "is_digit c" using assms(1) ds by simp
  have nd: "non_decimal ds = None"
  proof (cases cs)
    case Nil
    then show ?thesis using ds by (simp add: non_decimal_def)
  next
    case (Cons c1 cs1)
    then have "is_digit c1" using assms(1) ds by simp
    then show ?thesis
      using ds Cons digit_not_letter [of c1] by (simp add: non_decimal_def)
  qed
  have tw: "takeWhile is_digit ds = ds" and dw: "dropWhile is_digit ds = []"
    using assms(1) by (simp_all add: list_all_iff)
  have inf: "ds \<noteq> lit ''Infinity''"
    using ds digit_not_letter [OF c] by (auto simp: lit_def)
  have ud: "str_unsigned_decimal ds = Some (of_int (digits_val ds))"
    using assms(2) by (simp add: str_unsigned_decimal_def tw dw str_exponent_def)
  have sd: "str_decimal ds = Some (round_double (of_int (digits_val ds)))"
    using ds digit_not_letter [OF c] inf ud by (simp add: str_decimal_def)
  show ?thesis
    using assms by (simp add: Number_def trim_digits nd sd)
qed

lemma Number_decimal:
  assumes "n < 2 ^ 53"
  shows "Number (decimal n) = Fin (of_nat n)"
proof -
  have "Number (decimal n) = round_double (of_int (int n))"
    using decimal_digits [of n] by (simp add: Number_digits)
  also have "\<dots> = Fin (of_int (int n))"
    using assms by (intro round_double_int) simp_all
  finally show ?thesis by simp
qed

section \<open>The import\<close>

lemma import_users_loaded: "users_module w = Some v \<Longrightarrow> import_users w = (Inr v, w)"
  by (simp add: import_users_def)

lemma import_users_first:
  "users_module w = None \<Longrightarrow> parse_text (users_json w) = Some v \<Longrightarrow>
   import_users w = (Inr v, w\<lparr>users_module := Some v\<rparr>)"
  by (simp add: import_users_def)

lemma import_users_reject:
  "users_module w = None \<Longrightarrow> parse_text (users_json w) = None \<Longrightarrow>
   import_users w = (Inl SyntaxError, w)"
  by (simp add: import_users_def)

lemma import_users_Inr:
  "import_users w = (Inr v, w1) \<Longrightarrow> users_module w1 = Some v \<and> users_json w1 = users_json w"
  by (auto simp: import_users_def split: option.splits)

lemma import_empty_store: "import_users empty_store = (Inr (JArr []), empty_store\<lparr>users_module := Some (JArr [])\<rparr>)"
  by code_simp

section \<open>Identifiers assigned by createUser\<close>

lemma createUser_array:
  assumes "fst (import_users w) = Inr (JArr us)"
  shows "createUser params w =
           (Inr (length us + 1),
            \<lparr>users_module = Some (JArr (us @ [new_record (length us + 1) params])),
             users_json = Stringified 2 (JArr (us @ [new_record (length us + 1) params]))\<rparr>)"
  using assms by (cases "import_users w") (simp add: createUser_def Let_def)

lemma put_other: "k \<noteq> k' \<Longrightarrow> map_of (put k v kvs) k' = map_of kvs k'"
  by (induction kvs) auto

lemma get_id_new_record:
  "get_id (new_record i (params_object p)) = Inr (id_number i)"
  by (simp add: get_id_def new_record_def params_object_def own_properties_def id_number_def lit_def)

lemma new_record_params:
  "new_record i (params_object p) =
     JObj [(lit ''id'', JNum (Fin (of_nat i))), (lit ''name'', JStr (name p)),
           (lit ''email'', JStr (email p)), (lit ''address'', JStr (address p)),
           (lit ''phone'', JStr (phone p))]"
  by (simp add: new_record_def params_object_def own_properties_def lit_def)

lemma upt_first: "[m..<m + Suc k] = m # [Suc m..<Suc m + k]"
  by (simp add: upt_conv_Cons del: upt_Suc)

lemma appended_Nil: "appended n [] = []"
  by (simp add: appended_def)

lemma appended_Cons:
  "appended n (p # ps) = new_record (Suc n) (params_object p) # appended (Suc n) ps"
  using upt_first [of "Suc n" "length ps"] by (simp add: appended_def del: upt_Suc)

lemma length_appended: "length (appended n ps) = length ps"
  by (simp add: appended_def del: upt_Suc)

lemma create_users_from:
  "fst (import_users w) = Inr (JArr us) \<Longrightarrow>
   fst (create_users ps w) = map Inr [Suc (length us)..<Suc (length us) + length ps]
   \<and> fst (import_users (snd (create_users ps w))) = Inr (JArr (us @ appended (length us) ps))"
proof (induction ps arbitrary: w us)
  case Nil
  then show ?case by (simp add: appended_Nil)
next
  case (Cons p ps)
  let ?r = "new_record (Suc (length us)) (params_object p)"
  let ?w1 = "\<lparr>users_module = Some (JArr (us @ [?r])), users_json = Stringified 2 (JArr (us @ [?r]))\<rparr>"
  have step: "createUser (params_object p) w = (Inr (Suc (length us)), ?w1)"
    using createUser_array [OF Cons.prems] by simp
  have "fst (import_users ?w1) = Inr (JArr (us @ [?r]))"
    by (simp add: import_users_loaded)
  from Cons.IH [OF this] show ?case
    using upt_first [of "Suc (length us)" "length ps"]
    by (simp add: step appended_Cons case_prod_beta del: upt_Suc)
qed

lemma sequential_ids_Nil: "sequential_ids []"
  by (simp add: sequential_ids_def)

lemma sequential_ids_snoc:
  "sequential_ids us \<Longrightarrow> get_id u = Inr (id_number (Suc (length us))) \<Longrightarrow> sequential_ids (us @ [u])"
  by (simp add: sequential_ids_def)

lemma sequential_ids_appended:
  "sequential_ids us \<Longrightarrow> sequential_ids (us @ appended (length us) ps)"
proof (induction ps arbitrary: us)
  case Nil
  then show ?case by (simp add: appended_Nil)
next
  case (Cons p ps)
  have "sequential_ids (us @ [new_record (Suc (length us)) (params_object p)])"
    using Cons.prems by (rule sequential_ids_snoc) (rule get_id_new_record)
  from Cons.IH [OF this] show ?case by (simp add: appended_Cons)
qed


text \<open>
  C1.  In a store of \<open>n\<close> records \<open>createUser\<close> returns \<open>n + 1\<close>, whatever the fields.
  Sequential calls on the empty store return 1, 2, 3, ... in this order, strictly
  increasing and without repetition, and the records of the store carry exactly
  these numbers as their \<open>id\<close>.
\<close>

theorem append_ids:
  assumes "fst (import_users w) = Inr (JArr us)"
  shows "fst (createUser params w) = Inr (length us + 1)
         \<and> (us = [] \<longrightarrow>
              fst (create_users ps w) = map Inr [1..<Suc (length ps)]
              \<and> sorted_wrt (<) [1..<Suc (length ps)] \<and> distinct [1..<Suc (length ps)]
              \<and> (\<exists>us'. fst (import_users (snd (create_users ps w))) = Inr (JArr us')
                        \<and> map get_id us' = map (\<lambda>i. Inr (id_number i)) [1..<Suc (length ps)]))"
proof (intro conjI impI)
  show "fst (createUser params w) = Inr (length us + 1)"
    using createUser_array [OF assms] by simp
next
  assume e: "us = []"
  with assms have w: "fst (import_users w) = Inr (JArr [])" by simp
  from create_users_from [OF w, of ps]
  have ids: "fst (create_users ps w) = map Inr [1..<Suc (length ps)]"
    and store: "fst (import_users (snd (create_users ps w))) = Inr (JArr (appended 0 ps))"
    by simp_all
  show "fst (create_users ps w) = map Inr [1..<Suc (length ps)]" by (rule ids)
  show "sorted_wrt (<) [1..<Suc (length ps)]" by (rule sorted_wrt_upt)
  show "distinct [1..<Suc (length ps)]" by (rule distinct_upt)
  have "sequential_ids (appended 0 ps)"
    using sequential_ids_appended [OF sequential_ids_Nil, of ps] by simp
  then have "map get_id (appended 0 ps) = map (\<lambda>i. Inr (id_number i)) [1..<Suc (length ps)]"
    by (simp add: sequential_ids_def length_appended)
  with store
  show "\<exists>us'. fst (import_users (snd (create_users ps w))) = Inr (JArr us')
              \<and> map get_id us' = map (\<lambda>i. Inr (id_number i)) [1..<Suc (length ps)]"
    by blast
qed

theorem append_ids_witness:
  "fst (import_users empty_store) = Inr (JArr [])
   \<and> fst (createUser (params_object ana) empty_store) = Inr 1
   \<and> fst (create_users [ana, bo] empty_store) = [Inr 1, Inr 2]
   \<and> (\<exists>us'. fst (import_users (snd (create_users [ana, bo] empty_store))) = Inr (JArr us')
            \<and> map get_id us' = [Inr (id_number 1), Inr (id_number 2)])"
proof -
  have h: "fst (import_users empty_store) = Inr (JArr [])"
    by (simp add: import_empty_store)
  have two: "[1..<Suc (length [ana, bo])] = [1, 2]"
    by (simp add: upt_rec)
  show ?thesis
    using h append_ids [OF h, of "params_object ana" "[ana, bo]"] unfolding two by simp
qed

section \<open>Looking up the appended record\<close>

lemma sequential_ids_nth:
  "sequential_ids us \<Longrightarrow> i < length us \<Longrightarrow> get_id (us ! i) = Inr (id_number (Suc i))"
proof -
  assume a: "sequential_ids us" and i: "i < length us"
  have "map get_id us ! i = map (\<lambda>i. Inr (id_number i)) [1..<Suc (length us)] ! i"
    using a by (simp add: sequential_ids_def)
  then show ?thesis using i by (simp add: nth_append del: upt_Suc)
qed

lemma sequential_ids_unused: "sequential_ids us \<Longrightarrow> id_unused (Suc (length us)) us"
proof -
  assume a: "sequential_ids us"
  have "case get_id v of Inl e \<Rightarrow> False | Inr x \<Rightarrow> x \<noteq> id_number (Suc (length us))"
    if "v \<in> set us" for v
  proof -
    from that obtain i where i: "i < length us" and v: "v = us ! i"
      by (auto simp: in_set_conv_nth)
    have "get_id v = Inr (id_number (Suc i))"
      using sequential_ids_nth [OF a i] v by simp
    then show ?thesis using i by (simp add: id_number_def)
  qed
  then show ?thesis by (simp add: id_unused_def list_all_iff)
qed

lemma id_matches_unused:
  "id_unused n us \<Longrightarrow> Number userId = Fin (of_nat n) \<Longrightarrow> u \<in> set us \<Longrightarrow>
   id_matches userId u = Inr False"
  by (auto simp: id_unused_def list_all_iff id_matches_def strict_eq_number_def id_number_def
      split: sum.splits option.splits json.splits)

lemma id_matches_same:
  "get_id u = Inr (id_number i) \<Longrightarrow> Number userId = Fin (of_nat i) \<Longrightarrow>
   id_matches userId u = Inr True"
  by (simp add: id_matches_def strict_eq_number_def id_number_def)

lemma array_find_skip:
  "\<forall>u\<in>set us. f u = Inr False \<Longrightarrow> array_find f (us @ vs) = array_find f vs"
  by (induction us) simp_all

lemma array_find_last:
  assumes "id_unused n us" and "get_id u = Inr (id_number n)"
    and "Number userId = Fin (of_nat n)"
  shows "array_find (id_matches userId) (us @ [u]) = Inr (Some u)"
proof -
  have "\<forall>v\<in>set us. id_matches userId v = Inr False"
    using assms(1,3) by (simp add: id_matches_unused)
  then have "array_find (id_matches userId) (us @ [u]) = array_find (id_matches userId) [u]"
    by (rule array_find_skip)
  also have "\<dots> = Inr (Some u)"
    using id_matches_same [OF assms(2) assms(3)] by simp
  finally show ?thesis .
qed

text \<open>
  C2, for the stores on which it holds.  Take a store in which no record carries
  the id that \<open>createUser\<close> is about to assign and no element is \<open>null\<close>; every
  store that satisfies the invariant of the data model is one, and so is every
  store that \<open>createUser\<close> has built from the empty one.  After \<open>createUser\<close> has
  returned the new id for the fields \<open>p\<close>, the user-details lookup answers the
  record made of that id and the four fields, for every \<open>userId\<close> that \<open>Number\<close>
  maps to the id, and so for the decimal numeral of the id.
\<close>

theorem find_after_append:
  assumes "fst (import_users w) = Inr (JArr us)" and "id_unused (Suc (length us)) us"
    and "createUser (params_object p) w = (r, w')"
  shows "r = Inr (Suc (length us))
         \<and> (Number userId = Fin (of_nat (Suc (length us))) \<longrightarrow>
              user_details href userId w' =
                (Inr (Contents href (Some (Stringified 0
                   (JObj [(lit ''id'', JNum (Fin (of_nat (Suc (length us))))),
                          (lit ''name'', JStr (name p)), (lit ''email'', JStr (email p)),
                          (lit ''address'', JStr (address p)), (lit ''phone'', JStr (phone p))])))),
                 w'))
         \<and> (Suc (length us) < 2 ^ 53 \<longrightarrow>
              user_details href (decimal (Suc (length us))) w' =
                (Inr (Contents href (Some (Stringified 0
                   (JObj [(lit ''id'', JNum (Fin (of_nat (Suc (length us))))),
                          (lit ''name'', JStr (name p)), (lit ''email'', JStr (email p)),
                          (lit ''address'', JStr (address p)), (lit ''phone'', JStr (phone p))])))),
                 w'))"
proof -
  let ?u = "new_record (Suc (length us)) (params_object p)"
  have r: "r = Inr (Suc (length us))"
    and w': "w' = \<lparr>users_module = Some (JArr (us @ [?u])), users_json = Stringified 2 (JArr (us @ [?u]))\<rparr>"
    using createUser_array [OF assms(1), of "params_object p"] assms(3) by simp_all
  have imp: "import_users w' = (Inr (JArr (us @ [?u])), w')"
    by (simp add: w' import_users_loaded)
  have nn: "?u \<noteq> JNull" by (simp add: new_record_params)
  have answer: "user_details href uid w' = (Inr (Contents href (Some (Stringified 0 ?u))), w')"
    if "Number uid = Fin (of_nat (Suc (length us)))" for uid
  proof -
    have "array_find (id_matches uid) (us @ [?u]) = Inr (Some ?u)"
      using assms(2) get_id_new_record that by (rule array_find_last)
    with nn show ?thesis by (simp add: user_details_def imp)
  qed
  show ?thesis
    using r answer [of userId] answer [OF Number_decimal]
    by (simp add: new_record_params)
qed

theorem find_after_append_witness:
  "fst (import_users empty_store) = Inr (JArr []) \<and> id_unused (Suc (length ([] :: json list))) []
   \<and> fst (createUser (params_object ana) empty_store) = Inr 1
   \<and> decimal 1 = lit ''1''
   \<and> fst (user_details (lit ''users://1/details'') (lit ''1'')
            (snd (createUser (params_object ana) empty_store))) =
       Inr (Contents (lit ''users://1/details'') (Some (Stringified 0
         (JObj [(lit ''id'', JNum (Fin 1)), (lit ''name'', JStr (lit ''Ana'')),
                (lit ''email'', JStr (lit ''ana@x.com'')), (lit ''address'', JStr (lit ''1 Rd'')),
                (lit ''phone'', JStr (lit ''555''))]))))"
proof -
  have h: "fst (import_users empty_store) = Inr (JArr [])"
    by (simp add: import_empty_store)
  have u: "id_unused (Suc (length ([] :: json list))) []"
    by (simp add: id_unused_def)
  have d: "decimal 1 = lit ''1''"
    by (simp add: decimal.simps lit_def)
  note t = find_after_append [OF h u surjective_pairing, of ana "decimal 1" "lit ''users://1/details''"]
  have "fst (createUser (params_object ana) empty_store) = Inr (Suc (length ([] :: json list)))"
    using t by (rule conjunct1)
  moreover have "user_details (lit ''users://1/details'') (decimal (Suc (length ([] :: json list))))
          (snd (createUser (params_object ana) empty_store)) =
       (Inr (Contents (lit ''users://1/details'') (Some (Stringified 0
         (JObj [(lit ''id'', JNum (Fin (of_nat (Suc (length ([] :: json list)))))),
                (lit ''name'', JStr (name ana)), (lit ''email'', JStr (email ana)),
                (lit ''address'', JStr (address ana)), (lit ''phone'', JStr (phone ana))])))),
        snd (createUser (params_object ana) empty_store))"
    using t by simp
  ultimately show ?thesis
    using h u d by (simp add: ana_def)
qed

lemma number_2: "Number (lit ''2'') = Fin 2"
  by code_simp

lemma parse_gap: "JSON_parse (lit ''[{\"id\":2}]'') = Some (JArr [JObj [(lit ''id'', JNum (Fin 2))]])"
  by code_simp

lemma parse_null_element: "JSON_parse (lit ''[null]'') = Some (JArr [JNull])"
  by code_simp

text \<open>
  C2 as the specification states it, for every store, fails.  The id is the length of the array plus one,
  whatever ids the records carry, and \<open>find\<close> answers the first record with the
  id.  On the file \<^verbatim>\<open>[{"id":2}]\<close> \<open>createUser\<close> returns 2, and the lookup of 2
  answers the older record, not the appended one.  On the file \<^verbatim>\<open>[null]\<close>
  \<open>createUser\<close> returns 2 and the lookup throws, at \<open>null.id\<close>.
\<close>

theorem reused_id_counterexample:
  "parse_text (users_json (unloaded ''[{\"id\":2}]'')) = Some (JArr [JObj [(lit ''id'', JNum (Fin 2))]])
   \<and> fst (createUser (params_object ana) (unloaded ''[{\"id\":2}]'')) = Inr 2
   \<and> Number (lit ''2'') = Fin 2
   \<and> fst (user_details (lit ''users://2/details'') (lit ''2'')
            (snd (createUser (params_object ana) (unloaded ''[{\"id\":2}]''))))
       = Inr (Contents (lit ''users://2/details'')
               (Some (Stringified 0 (JObj [(lit ''id'', JNum (Fin 2))]))))
   \<and> JObj [(lit ''id'', JNum (Fin 2))] \<noteq> new_record 2 (params_object ana)
   \<and> fst (createUser (params_object ana) (unloaded ''[null]'')) = Inr 2
   \<and> fst (user_details (lit ''users://2/details'') (lit ''2'')
            (snd (createUser (params_object ana) (unloaded ''[null]''))))
       = Inl TypeError"
proof -
  let ?old = "JObj [(lit ''id'', JNum (Fin 2))]"
  let ?new = "new_record 2 (params_object ana)"
  let ?w = "unloaded ''[{\"id\":2}]''"
  let ?v = "unloaded ''[null]''"
  have p: "parse_text (users_json ?w) = Some (JArr [?old])"
    by (simp add: unloaded_def parse_text_def parse_gap)
  have i: "fst (import_users ?w) = Inr (JArr [?old])"
    using p by (simp add: import_users_def unloaded_def)
  have c: "createUser (params_object ana) ?w
       = (Inr 2, \<lparr>users_module = Some (JArr [?old, ?new]),
                  users_json = Stringified 2 (JArr [?old, ?new])\<rparr>)"
    using createUser_array [OF i, of "params_object ana"] by (simp add: numeral_2_eq_2)
  have m: "id_matches (lit ''2'') ?old = Inr True"
    by (simp add: id_matches_def get_id_def strict_eq_number_def number_2)
  have f: "array_find (id_matches (lit ''2'')) [?old, ?new] = Inr (Some ?old)"
    by (simp add: m)
  have d: "fst (user_details (lit ''users://2/details'') (lit ''2'')
            (snd (createUser (params_object ana) ?w)))
       = Inr (Contents (lit ''users://2/details'') (Some (Stringified 0 ?old)))"
    by (simp add: c user_details_def import_users_loaded f del: array_find.simps)
  have n: "?old \<noteq> ?new"
    by (simp add: new_record_params)
  have j: "fst (import_users ?v) = Inr (JArr [JNull])"
    by (simp add: import_users_def unloaded_def parse_text_def parse_null_element)
  have c': "createUser (params_object ana) ?v
       = (Inr 2, \<lparr>users_module = Some (JArr [JNull, ?new]),
                  users_json = Stringified 2 (JArr [JNull, ?new])\<rparr>)"
    using createUser_array [OF j, of "params_object ana"] by (simp add: numeral_2_eq_2)
  have f': "array_find (id_matches (lit ''2'')) [JNull, ?new] = Inl TypeError"
    by (simp add: id_matches_def get_id_def)
  have d': "fst (user_details (lit ''users://2/details'') (lit ''2'')
            (snd (createUser (params_object ana) ?v))) = Inl TypeError"
    by (simp add: c' user_details_def import_users_loaded f' del: array_find.simps)
  from p c number_2 d n c' d' show ?thesis by simp
qed

section \<open>Calls that overlap\<close>

text \<open>\<open>createUser\<close> is its synchronous part followed by the completion of its write.\<close>

lemma createUser_steps:
  "createUser params w =
     (case createUser_push params w of
        (Inl e, w1) \<Rightarrow> (Inl e, w1)
      | (Inr (new_id, txt), w1) \<Rightarrow> (Inr new_id, write_lands txt w1))"
  by (cases "import_users w")
     (auto simp: createUser_def createUser_push_def write_lands_def Let_def
           split: sum.splits json.splits)

lemma createUser_push_array:
  assumes "fst (import_users w) = Inr (JArr us)"
  shows "createUser_push params w =
           (Inr (Suc (length us), Stringified 2 (JArr (us @ [new_record (Suc (length us)) params]))),
            \<lparr>users_module = Some (JArr (us @ [new_record (Suc (length us)) params])),
             users_json = users_json w\<rparr>)"
proof -
  obtain w1 where i: "import_users w = (Inr (JArr us), w1)"
    using assms by (cases "import_users w") simp
  have "users_json w1 = users_json w"
    using import_users_Inr [OF i] by simp
  then show ?thesis
    by (cases w1) (simp add: createUser_push_def i Let_def)
qed

lemma appended_snoc:
  "appended n (ps @ [p]) = appended n ps @ [new_record (Suc (n + length ps)) (params_object p)]"
proof (induction ps arbitrary: n)
  case Nil
  show ?case by (simp add: appended_Cons appended_Nil)
next
  case (Cons q ps)
  show ?case using Cons [of "Suc n"] by (simp add: appended_Cons)
qed

lemma run_snoc: "run (es @ [e]) s = step e (run es s)"
  by (simp add: run_def)

lemma resumed_snoc:
  "resumed (es @ [e]) = (case e of Resume p \<Rightarrow> resumed es @ [p] | Land k \<Rightarrow> resumed es)"
  by (induction es rule: resumed.induct) (simp_all split: event.splits)


lemma remove_nth_parts:
  assumes "k < length xs"
  shows "\<exists>a x b. xs = a @ x # b \<and> xs ! k = x \<and> take k xs @ drop (Suc k) xs = a @ b"
proof -
  have "xs = take k xs @ xs ! k # drop (Suc k) xs"
    using assms by (rule id_take_nth_drop)
  then show ?thesis by blast
qed

lemma upt_ids_Suc:
  "{Suc n..<Suc n + Suc k} = insert (Suc (n + k)) {Suc n..<Suc n + k}"
  by auto

lemma schedule_invariant:
  assumes w: "fst (import_users w) = Inr (JArr us)"
  shows "(users_module (store (run es (idle w)))
            = Some (JArr (us @ appended (length us) (resumed es)))
          \<or> run es (idle w) = idle w \<and> resumed es = [])
       \<and> (\<forall>x\<in>set (in_flight (run es (idle w))).
             fst x \<le> length us + length (resumed es)
             \<and> snd x = Stringified 2
                 (JArr (us @ take (fst x - length us) (appended (length us) (resumed es)))))
       \<and> distinct (returned (run es (idle w)) @ map (Inr \<circ> fst) (in_flight (run es (idle w))))
       \<and> set (returned (run es (idle w)) @ map (Inr \<circ> fst) (in_flight (run es (idle w))))
           = Inr ` {Suc (length us)..<Suc (length us) + length (resumed es)}
       \<and> (returned (run es (idle w)) = [] \<longrightarrow>
             users_json (store (run es (idle w))) = users_json w)
       \<and> (returned (run es (idle w)) \<noteq> [] \<longrightarrow>
             (\<exists>i. last (returned (run es (idle w))) = Inr i
                \<and> users_json (store (run es (idle w)))
                    = Stringified 2
                        (JArr (us @ take (i - length us) (appended (length us) (resumed es))))))"
  (is "?P es")
proof (induction es rule: rev_induct)
  case Nil
  show ?case by (simp add: run_def idle_def)
next
  case (snoc e es)
  let ?s = "run es (idle w)"
  let ?n = "length us"
  let ?ps = "resumed es"
  let ?A = "appended ?n ?ps"
  note ih = snoc.IH
  have p1: "users_module (store ?s) = Some (JArr (us @ ?A)) \<or> ?s = idle w \<and> ?ps = []"
    using ih by blast
  have p3: "\<forall>x\<in>set (in_flight ?s). fst x \<le> ?n + length ?ps
              \<and> snd x = Stringified 2 (JArr (us @ take (fst x - ?n) ?A))"
    using ih by blast
  have p4: "distinct (returned ?s @ map (Inr \<circ> fst) (in_flight ?s))"
    using ih by blast
  have p5: "set (returned ?s @ map (Inr \<circ> fst) (in_flight ?s))
              = Inr ` {Suc ?n..<Suc ?n + length ?ps}"
    using ih by blast
  have p6: "returned ?s = [] \<longrightarrow> users_json (store ?s) = users_json w"
    using ih by blast
  have p7: "returned ?s \<noteq> [] \<longrightarrow>
             (\<exists>i. last (returned ?s) = Inr i
                \<and> users_json (store ?s) = Stringified 2 (JArr (us @ take (i - ?n) ?A)))"
    using ih by blast
  have imp: "fst (import_users (store ?s)) = Inr (JArr (us @ ?A))"
    using p1
  proof
    assume "users_module (store ?s) = Some (JArr (us @ ?A))"
    then show ?thesis by (simp add: import_users_loaded)
  next
    assume "?s = idle w \<and> ?ps = []"
    then show ?thesis using w by (simp add: idle_def appended_Nil)
  qed
  show ?case
  proof (cases e)
    case (Resume p)
    let ?r = "new_record (Suc (?n + length ?ps)) (params_object p)"
    let ?t = "Stringified 2 (JArr (us @ ?A @ [?r]))"
    let ?w1 = "\<lparr>users_module = Some (JArr (us @ ?A @ [?r])), users_json = users_json (store ?s)\<rparr>"
    have push: "createUser_push (params_object p) (store ?s) = (Inr (Suc (?n + length ?ps), ?t), ?w1)"
      using createUser_push_array [OF imp, of "params_object p"] by (simp add: length_appended)
    have s': "run (es @ [e]) (idle w)
                = ?s\<lparr>store := ?w1, in_flight := in_flight ?s @ [(Suc (?n + length ?ps), ?t)]\<rparr>"
      by (simp add: run_snoc Resume step_def push)
    have ps': "resumed (es @ [e]) = ?ps @ [p]"
      by (simp add: resumed_snoc Resume)
    have A': "appended ?n (?ps @ [p]) = ?A @ [?r]"
      by (rule appended_snoc)
    have keep: "take (i - ?n) (?A @ [?r]) = take (i - ?n) ?A" if "i \<le> ?n + length ?ps" for i
      using that by (simp add: length_appended)
    have bound: "i \<le> ?n + length ?ps" if "Inr i \<in> set (returned ?s)" for i
    proof -
      from that have "Inr i \<in> set (returned ?s @ map (Inr \<circ> fst) (in_flight ?s))" by simp
      then have "(Inr i :: js_error + nat) \<in> Inr ` {Suc ?n..<Suc ?n + length ?ps}"
        by (simp only: p5)
      then show ?thesis by auto
    qed
    have c1: "users_module (store (run (es @ [e]) (idle w)))
                = Some (JArr (us @ appended ?n (resumed (es @ [e]))))"
      by (simp add: s' ps' A')
    have c3: "\<forall>x\<in>set (in_flight (run (es @ [e]) (idle w))).
                fst x \<le> ?n + length (resumed (es @ [e]))
                \<and> snd x = Stringified 2
                    (JArr (us @ take (fst x - ?n) (appended ?n (resumed (es @ [e])))))"
    proof
      fix x assume "x \<in> set (in_flight (run (es @ [e]) (idle w)))"
      then have "x \<in> set (in_flight ?s) \<or> x = (Suc (?n + length ?ps), ?t)"
        by (auto simp: s')
      then show "fst x \<le> ?n + length (resumed (es @ [e]))
                \<and> snd x = Stringified 2
                    (JArr (us @ take (fst x - ?n) (appended ?n (resumed (es @ [e])))))"
      proof
        assume x: "x \<in> set (in_flight ?s)"
        with p3 have "fst x \<le> ?n + length ?ps"
          and "snd x = Stringified 2 (JArr (us @ take (fst x - ?n) ?A))" by blast+
        then show ?thesis by (simp add: ps' A' length_appended)
      next
        assume "x = (Suc (?n + length ?ps), ?t)"
        then show ?thesis by (simp add: ps' A' length_appended)
      qed
    qed
    have fresh: "(Inr (Suc (?n + length ?ps)) :: js_error + nat)
                   \<notin> set (returned ?s @ map (Inr \<circ> fst) (in_flight ?s))"
      by (simp only: p5) auto
    have c4: "distinct (returned (run (es @ [e]) (idle w))
                @ map (Inr \<circ> fst) (in_flight (run (es @ [e]) (idle w))))"
      using p4 fresh by (simp add: s')
    have c5: "set (returned (run (es @ [e]) (idle w))
                @ map (Inr \<circ> fst) (in_flight (run (es @ [e]) (idle w))))
              = Inr ` {Suc ?n..<Suc ?n + length (resumed (es @ [e]))}"
    proof -
      have "set (returned (run (es @ [e]) (idle w))
                @ map (Inr \<circ> fst) (in_flight (run (es @ [e]) (idle w))))
            = insert (Inr (Suc (?n + length ?ps)))
                (set (returned ?s @ map (Inr \<circ> fst) (in_flight ?s)))"
        by (simp add: s')
      also have "\<dots> = Inr ` insert (Suc (?n + length ?ps)) {Suc ?n..<Suc ?n + length ?ps}"
        by (simp only: p5 image_insert)
      finally show ?thesis by (simp only: ps' length_append_singleton upt_ids_Suc)
    qed
    have c6: "returned (run (es @ [e]) (idle w)) = [] \<longrightarrow>
                users_json (store (run (es @ [e]) (idle w))) = users_json w"
      using p6 by (simp add: s')
    have c7: "returned (run (es @ [e]) (idle w)) \<noteq> [] \<longrightarrow>
             (\<exists>i. last (returned (run (es @ [e]) (idle w))) = Inr i
                \<and> users_json (store (run (es @ [e]) (idle w)))
                    = Stringified 2
                        (JArr (us @ take (i - ?n) (appended ?n (resumed (es @ [e]))))))"
    proof
      assume "returned (run (es @ [e]) (idle w)) \<noteq> []"
      then have ne: "returned ?s \<noteq> []" by (simp add: s')
      with p7 obtain i where i: "last (returned ?s) = Inr i"
        and f: "users_json (store ?s) = Stringified 2 (JArr (us @ take (i - ?n) ?A))" by blast
      have "Inr i \<in> set (returned ?s)" using ne i last_in_set by metis
      then have "i \<le> ?n + length ?ps" by (rule bound)
      then show "\<exists>i. last (returned (run (es @ [e]) (idle w))) = Inr i
                \<and> users_json (store (run (es @ [e]) (idle w)))
                    = Stringified 2
                        (JArr (us @ take (i - ?n) (appended ?n (resumed (es @ [e])))))"
        using i f by (simp add: s' ps' A' length_appended)
    qed
    from c1 c3 c4 c5 c6 c7 show ?thesis by blast
  next
    case (Land k)
    have ps': "resumed (es @ [e]) = ?ps"
      by (simp add: resumed_snoc Land)
    show ?thesis
    proof (cases "k < length (in_flight ?s)")
      case False
      then have same: "run (es @ [e]) (idle w) = ?s"
        by (simp add: run_snoc Land step_def)
      show ?thesis unfolding same ps' by (rule ih)
    next
      case True
      from remove_nth_parts [OF True] obtain a x b
        where fl: "in_flight ?s = a @ x # b" and xk: "in_flight ?s ! k = x"
          and rest: "take k (in_flight ?s) @ drop (Suc k) (in_flight ?s) = a @ b" by blast
      have s': "run (es @ [e]) (idle w)
                  = ?s\<lparr>store := write_lands (snd x) (store ?s), in_flight := a @ b,
                        returned := returned ?s @ [Inr (fst x)]\<rparr>"
        using True by (simp add: run_snoc Land step_def rest xk)
      have loaded: "users_module (store ?s) = Some (JArr (us @ ?A))"
        using p1 True by (auto simp: idle_def)
      have x: "x \<in> set (in_flight ?s)" by (simp add: fl)
      have c1: "users_module (store (run (es @ [e]) (idle w)))
                = Some (JArr (us @ appended ?n (resumed (es @ [e]))))"
        using loaded by (simp add: s' ps' write_lands_def)
      have c3: "\<forall>x\<in>set (in_flight (run (es @ [e]) (idle w))).
                fst x \<le> ?n + length (resumed (es @ [e]))
                \<and> snd x = Stringified 2
                    (JArr (us @ take (fst x - ?n) (appended ?n (resumed (es @ [e])))))"
        using p3 by (simp add: s' ps' fl)
      have c4: "distinct (returned (run (es @ [e]) (idle w))
                @ map (Inr \<circ> fst) (in_flight (run (es @ [e]) (idle w))))"
        using p4 by (auto simp: s' fl)
      have c5: "set (returned (run (es @ [e]) (idle w))
                @ map (Inr \<circ> fst) (in_flight (run (es @ [e]) (idle w))))
              = Inr ` {Suc ?n..<Suc ?n + length (resumed (es @ [e]))}"
      proof -
        have "set (returned (run (es @ [e]) (idle w))
                @ map (Inr \<circ> fst) (in_flight (run (es @ [e]) (idle w))))
              = set (returned ?s @ map (Inr \<circ> fst) (in_flight ?s))"
          by (auto simp: s' fl)
        then show ?thesis by (simp only: p5 ps')
      qed
      have c6: "returned (run (es @ [e]) (idle w)) = [] \<longrightarrow>
                users_json (store (run (es @ [e]) (idle w))) = users_json w"
        by (simp add: s')
      have c7: "returned (run (es @ [e]) (idle w)) \<noteq> [] \<longrightarrow>
             (\<exists>i. last (returned (run (es @ [e]) (idle w))) = Inr i
                \<and> users_json (store (run (es @ [e]) (idle w)))
                    = Stringified 2
                        (JArr (us @ take (i - ?n) (appended ?n (resumed (es @ [e]))))))"
        using p3 x by (simp add: s' ps' write_lands_def)
      from c1 c3 c4 c5 c6 c7 show ?thesis by blast
    qed
  qed
qed

lemma run_in_order:
  "run [Resume ana, Resume bo, Land 0, Land 0] (idle empty_store)
     = \<lparr>store = \<lparr>users_module = Some (JArr (appended 0 [ana, bo])),
                  users_json = Stringified 2 (JArr (appended 0 [ana, bo]))\<rparr>,
        in_flight = [], returned = [Inr 1, Inr 2]\<rparr>"
  by code_simp

lemma run_resumed_only:
  "run [Resume ana, Resume bo] (idle empty_store)
     = \<lparr>store = \<lparr>users_module = Some (JArr (appended 0 [ana, bo])),
                  users_json = Chars (lit ''[]'')\<rparr>,
        in_flight = [(1, Stringified 2 (JArr (appended 0 [ana]))),
                     (2, Stringified 2 (JArr (appended 0 [ana, bo])))],
        returned = []\<rparr>"
  by code_simp

lemma run_out_of_order:
  "run [Resume ana, Resume bo, Land (Suc 0), Land 0] (idle empty_store)
     = \<lparr>store = \<lparr>users_module = Some (JArr [ana_record, new_record 2 (params_object bo)]),
                  users_json = Stringified 2 (JArr [ana_record])\<rparr>,
        in_flight = [], returned = [Inr 2, Inr (Suc 0)]\<rparr>"
  by code_simp

text \<open>
  C3, for the array of the process.  Take a store that is an array of \<open>n\<close> records
  and any schedule of \<open>N\<close> calls.  The ids of the calls, returned or still to be
  returned, are \<open>n + 1\<close>, ..., \<open>n + N\<close>, each once, and once every call has
  finished the \<open>N\<close> returned ids are pairwise distinct.  The array that every
  read of the process sees holds the old records and the \<open>N\<close> new ones, in the
  order of resumption: its length has grown by exactly \<open>N\<close>.  The file is as it
  was until a call finishes; from then on it holds the snapshot written by the
  call that finished last, the old records and the new ones up to the id of
  that call.  It holds all of them when that call is the one resumed last.
\<close>

theorem concurrent_appends:
  assumes "fst (import_users w) = Inr (JArr us)" and "run es (idle w) = s"
  shows "distinct (returned s @ map (Inr \<circ> fst) (in_flight s))
       \<and> set (returned s @ map (Inr \<circ> fst) (in_flight s))
           = Inr ` {Suc (length us)..<Suc (length us) + length (resumed es)}
       \<and> fst (import_users (store s)) = Inr (JArr (us @ appended (length us) (resumed es)))
       \<and> length (us @ appended (length us) (resumed es)) = length us + length (resumed es)
       \<and> (in_flight s = [] \<longrightarrow>
            distinct (returned s) \<and> length (returned s) = length (resumed es))
       \<and> (returned s = [] \<longrightarrow> users_json (store s) = users_json w)
       \<and> (returned s \<noteq> [] \<longrightarrow>
            (\<exists>i. last (returned s) = Inr i \<and> Suc (length us) \<le> i
               \<and> i \<le> length us + length (resumed es)
               \<and> users_json (store s)
                   = Stringified 2
                       (JArr (us @ take (i - length us) (appended (length us) (resumed es))))))
       \<and> (returned s \<noteq> [] \<and> last (returned s) = Inr (length us + length (resumed es)) \<longrightarrow>
            users_json (store s)
              = Stringified 2 (JArr (us @ appended (length us) (resumed es))))"
proof -
  let ?n = "length us"
  let ?ps = "resumed es"
  let ?A = "appended ?n ?ps"
  note inv = schedule_invariant [OF assms(1), of es, unfolded assms(2)]
  have p1: "users_module (store s) = Some (JArr (us @ ?A)) \<or> s = idle w \<and> ?ps = []"
    using inv by blast
  have p4: "distinct (returned s @ map (Inr \<circ> fst) (in_flight s))"
    using inv by blast
  have p5: "set (returned s @ map (Inr \<circ> fst) (in_flight s))
              = Inr ` {Suc ?n..<Suc ?n + length ?ps}"
    using inv by blast
  have p6: "returned s = [] \<longrightarrow> users_json (store s) = users_json w"
    using inv by blast
  have p7: "returned s \<noteq> [] \<longrightarrow>
             (\<exists>i. last (returned s) = Inr i
                \<and> users_json (store s) = Stringified 2 (JArr (us @ take (i - ?n) ?A)))"
    using inv by blast
  have imp: "fst (import_users (store s)) = Inr (JArr (us @ ?A))"
    using p1
  proof
    assume "users_module (store s) = Some (JArr (us @ ?A))"
    then show ?thesis by (simp add: import_users_loaded)
  next
    assume "s = idle w \<and> ?ps = []"
    then show ?thesis using assms(1) by (simp add: idle_def appended_Nil)
  qed
  have len: "length (us @ ?A) = ?n + length ?ps"
    by (simp add: length_appended)
  have finished: "distinct (returned s) \<and> length (returned s) = length ?ps" if "in_flight s = []"
  proof -
    have d: "distinct (returned s)" using p4 that by simp
    have "set (returned s) = Inr ` {Suc ?n..<Suc ?n + length ?ps}"
      using p5 that by simp
    then have "card (set (returned s)) = card {Suc ?n..<Suc ?n + length ?ps}"
      by (simp add: card_image)
    then show ?thesis using d by (simp add: distinct_card)
  qed
  have on_file: "\<exists>i. last (returned s) = Inr i \<and> Suc ?n \<le> i \<and> i \<le> ?n + length ?ps
               \<and> users_json (store s) = Stringified 2 (JArr (us @ take (i - ?n) ?A))"
    if ne: "returned s \<noteq> []"
  proof -
    from p7 ne obtain i where i: "last (returned s) = Inr i"
      and f: "users_json (store s) = Stringified 2 (JArr (us @ take (i - ?n) ?A))" by blast
    have "Inr i \<in> set (returned s)" using ne i last_in_set by metis
    then have "Inr i \<in> set (returned s @ map (Inr \<circ> fst) (in_flight s))" by simp
    then have "(Inr i :: js_error + nat) \<in> Inr ` {Suc ?n..<Suc ?n + length ?ps}"
      by (simp only: p5)
    then have "Suc ?n \<le> i \<and> i \<le> ?n + length ?ps" by auto
    with i f show ?thesis by blast
  qed
  have whole: "users_json (store s) = Stringified 2 (JArr (us @ ?A))"
    if "returned s \<noteq> [] \<and> last (returned s) = Inr (?n + length ?ps)"
  proof -
    from on_file that obtain i where "last (returned s) = Inr i"
      and f: "users_json (store s) = Stringified 2 (JArr (us @ take (i - ?n) ?A))" by blast
    with that have "i = ?n + length ?ps" by simp
    with f show ?thesis by (simp add: length_appended)
  qed
  from p4 p5 imp len finished p6 on_file whole show ?thesis by blast
qed

theorem concurrent_appends_witness:
  "fst (import_users empty_store) = Inr (JArr [])
   \<and> returned (run [Resume ana, Resume bo, Land 0, Land 0] (idle empty_store)) = [Inr 1, Inr 2]
   \<and> in_flight (run [Resume ana, Resume bo, Land 0, Land 0] (idle empty_store)) = []
   \<and> distinct (returned (run [Resume ana, Resume bo, Land 0, Land 0] (idle empty_store)))
   \<and> length (returned (run [Resume ana, Resume bo, Land 0, Land 0] (idle empty_store))) = 2
   \<and> fst (import_users (store (run [Resume ana, Resume bo, Land 0, Land 0] (idle empty_store))))
       = Inr (JArr [new_record 1 (params_object ana), new_record 2 (params_object bo)])
   \<and> users_json (store (run [Resume ana, Resume bo, Land 0, Land 0] (idle empty_store)))
       = Stringified 2 (JArr [new_record 1 (params_object ana), new_record 2 (params_object bo)])
   \<and> returned (run [Resume ana, Resume bo] (idle empty_store)) = []
   \<and> users_json (store (run [Resume ana, Resume bo] (idle empty_store))) = users_json empty_store"
proof -
  let ?es = "[Resume ana, Resume bo, Land 0, Land 0]"
  let ?s = "run ?es (idle empty_store)"
  let ?s2 = "run [Resume ana, Resume bo] (idle empty_store)"
  have h: "fst (import_users empty_store) = Inr (JArr [])"
    by (simp add: import_empty_store)
  have r: "returned ?s = [Inr 1, Inr 2]" and f: "in_flight ?s = []"
    by (simp_all add: run_in_order)
  have r2: "returned ?s2 = []"
    by (simp add: run_resumed_only)
  have ps: "resumed ?es = [ana, bo]" by simp
  have A: "appended 0 [ana, bo] = [new_record 1 (params_object ana), new_record 2 (params_object bo)]"
    by (simp add: appended_Cons appended_Nil numeral_2_eq_2)
  note t = concurrent_appends [OF h refl, of ?es]
  note t2 = concurrent_appends [OF h refl, of "[Resume ana, Resume bo]"]
  have a: "distinct (returned ?s) \<and> length (returned ?s) = length (resumed ?es)"
    using t f by blast
  have b: "fst (import_users (store ?s)) = Inr (JArr ([] @ appended (length ([] :: json list)) (resumed ?es)))"
    using t by blast
  have "returned ?s \<noteq> [] \<and> last (returned ?s) = Inr (length ([] :: json list) + length (resumed ?es))"
    by (simp add: r)
  with t have c: "users_json (store ?s)
      = Stringified 2 (JArr ([] @ appended (length ([] :: json list)) (resumed ?es)))"
    by blast
  have d: "users_json (store ?s2) = users_json empty_store"
    using t2 r2 by blast
  from h r f a b c r2 d show ?thesis
    by (simp only: ps A append_Nil list.size One_nat_def numeral_2_eq_2 simp_thms add_0)
qed

text \<open>
  C3 as the specification states it fails for the file.  Two calls on the empty store, the write of the
  second completing before the write of the first: the calls return 2 and 1,
  and the file is left with the record of the first call only.
\<close>

theorem lost_write_counterexample:
  "fst (import_users empty_store) = Inr (JArr [])
   \<and> in_flight (run [Resume ana, Resume bo, Land 1, Land 0] (idle empty_store)) = []
   \<and> returned (run [Resume ana, Resume bo, Land 1, Land 0] (idle empty_store)) = [Inr 2, Inr 1]
   \<and> users_json (store (run [Resume ana, Resume bo, Land 1, Land 0] (idle empty_store)))
       = Stringified 2 (JArr [ana_record])
   \<and> parse_text (users_json (store (run [Resume ana, Resume bo, Land 1, Land 0] (idle empty_store))))
       = Some (JArr [ana_record])
   \<and> length [ana_record] \<noteq> length ([] :: json list) + 2"
proof -
  have "parse_text (Stringified 2 (JArr [ana_record])) = Some (JArr [ana_record])"
    by (simp add: parse_text_def ana_record_def new_record_params)
  then show ?thesis
    by (simp add: run_out_of_order import_empty_store)
qed

section \<open>The lookup by number\<close>

lemma array_find_Some:
  "array_find f us = Inr (Some u) \<Longrightarrow> u \<in> set us \<and> f u = Inr True"
  by (induction us) (auto split: sum.splits if_splits)



lemma array_find_not_null: "array_find (id_matches userId) us \<noteq> Inr (Some JNull)"
proof
  assume "array_find (id_matches userId) us = Inr (Some JNull)"
  then have "id_matches userId JNull = Inr True" by (auto dest: array_find_Some)
  then show False by (simp add: id_matches_def get_id_def)
qed

lemma array_find_not_not_found: "array_find (id_matches userId) us \<noteq> Inr (Some not_found)"
proof
  assume "array_find (id_matches userId) us = Inr (Some not_found)"
  then have "id_matches userId not_found = Inr True" by (auto dest: array_find_Some)
  then show False
    by (simp add: id_matches_def get_id_def not_found_def strict_eq_number_def lit_def)
qed


lemma user_details_loaded:
  "users_module w = Some (JArr us) \<Longrightarrow> array_find (id_matches userId) us = Inr user \<Longrightarrow>
   user_details href userId w = (Inr (Contents href (map_option (Stringified 0) user)), w)"
  using array_find_not_null [of userId us]
  by (simp add: user_details_def import_users_loaded)

lemma user_details_never_not_found:
  "fst (user_details href userId w) \<noteq> Inr (Contents href (Some (Stringified 0 not_found)))"
  using array_find_not_null array_find_not_not_found
  by (auto simp: user_details_def split: prod.splits sum.splits json.splits option.splits)


lemma ana_record_not_null: "ana_record \<noteq> JNull"
  by (simp add: ana_record_def new_record_params)



section \<open>The answer for an id that is not in the store\<close>

text \<open>
  C5.  For an id that no record has, \<open>find\<close> yields \<open>undefined\<close>, which is not
  \<open>=== null\<close>: the handler answers a \<open>text\<close> that is \<open>JSON.stringify(undefined)\<close>,
  that is \<open>undefined\<close>.  The branch that answers \<open>{"error": "User not found"}\<close> is
  never taken, whatever the store and the \<open>userId\<close>.
\<close>

theorem missing_user_answer:
  "user_details (lit ''users://2/details'') (lit ''2'') one_user_store
     = (Inr (Contents (lit ''users://2/details'') None), one_user_store)
   \<and> fst (user_details href userId w) \<noteq> Inr (Contents href (Some (Stringified 0 not_found)))"
proof
  have "id_matches (lit ''2'') ana_record = Inr False"
    using get_id_new_record [of 1 ana] number_2
    by (simp add: id_matches_def ana_record_def id_number_def strict_eq_number_def)
  then have "array_find (id_matches (lit ''2'')) [ana_record] = Inr None"
    by simp
  then show "user_details (lit ''users://2/details'') (lit ''2'') one_user_store
     = (Inr (Contents (lit ''users://2/details'') None), one_user_store)"
    using user_details_loaded [of one_user_store "[ana_record]" "lit ''2''" None]
    by (simp add: one_user_store_def)
  show "fst (user_details href userId w) \<noteq> Inr (Contents href (Some (Stringified 0 not_found)))"
    by (rule user_details_never_not_found)
qed

section \<open>What the handlers do with a failure of the store\<close>

lemma parse_oops: "JSON_parse (lit ''oops'') = None"
  by code_simp

lemma parse_one: "JSON_parse (lit ''[1]'') = Some (JArr [JNum (Fin 1)])"
  by code_simp

lemma parse_braces: "JSON_parse (lit ''{}'') = Some (JObj [])"
  by code_simp

lemma users_resource_loaded:
  "users_module w = Some v \<Longrightarrow> users_resource href w = (Inr (Contents href (Some (Stringified 0 v))), w)"
  by (simp add: users_resource_def import_users_loaded)

lemma createUser_Inr:
  "fst (createUser params w) = Inr n \<Longrightarrow>
   \<exists>us. fst (import_users w) = Inr (JArr us) \<and> n = length us + 1"
  by (auto simp: createUser_def Let_def split: prod.splits sum.splits json.splits)

text \<open>
  C6.  With a backing file that does not parse, the two resource handlers throw the
  \<open>SyntaxError\<close> of the import, while the \<open>create-user\<close> tool catches it and answers
  \<open>Failed to save user\<close>.
\<close>

theorem resource_handlers_throw:
  "users_resource href (unloaded ''oops'') = (Inl SyntaxError, unloaded ''oops'')
   \<and> user_details href userId (unloaded ''oops'') = (Inl SyntaxError, unloaded ''oops'')
   \<and> create_user_tool p (unloaded ''oops'') = (Content (lit ''Failed to save user''), unloaded ''oops'')"
  using parse_oops
  by (simp add: users_resource_def user_details_def create_user_tool_def createUser_def
      import_users_def unloaded_def parse_text_def)

text \<open>
  C4.  On the first import of the process, a backing file that is not JSON makes the
  users resource, the user-details resource and \<open>createUser\<close> throw a \<open>SyntaxError\<close>
  and leaves the world as it was; a file that holds JSON other than an array makes
  the user-details resource and \<open>createUser\<close> throw a \<open>TypeError\<close>, and the file
  is not written.
\<close>

theorem unparsable_store:
  "(users_module w = None \<and> parse_text (users_json w) = None \<longrightarrow>
      users_resource href w = (Inl SyntaxError, w)
      \<and> user_details href userId w = (Inl SyntaxError, w)
      \<and> createUser params w = (Inl SyntaxError, w))
   \<and> (users_module w = None \<and> parse_text (users_json w) = Some v \<and> (\<forall>us. v \<noteq> JArr us) \<longrightarrow>
      user_details href userId w = (Inl TypeError, w\<lparr>users_module := Some v\<rparr>)
      \<and> createUser params w = (Inl TypeError, w\<lparr>users_module := Some v\<rparr>)
      \<and> users_json (w\<lparr>users_module := Some v\<rparr>) = users_json w)"
proof (intro conjI impI)
  assume a: "users_module w = None \<and> parse_text (users_json w) = None"
  then have i: "import_users w = (Inl SyntaxError, w)"
    by (simp add: import_users_reject)
  show "users_resource href w = (Inl SyntaxError, w)" by (simp add: users_resource_def i)
  show "user_details href userId w = (Inl SyntaxError, w)" by (simp add: user_details_def i)
  show "createUser params w = (Inl SyntaxError, w)" by (simp add: createUser_def i)
next
  assume a: "users_module w = None \<and> parse_text (users_json w) = Some v \<and> (\<forall>us. v \<noteq> JArr us)"
  then have i: "import_users w = (Inr v, w\<lparr>users_module := Some v\<rparr>)"
    by (simp add: import_users_first)
  show "user_details href userId w = (Inl TypeError, w\<lparr>users_module := Some v\<rparr>)"
    using a by (cases v) (simp_all add: user_details_def i)
  show "createUser params w = (Inl TypeError, w\<lparr>users_module := Some v\<rparr>)"
    using a by (cases v) (simp_all add: createUser_def i)
  show "users_json (w\<lparr>users_module := Some v\<rparr>) = users_json w" by simp
qed

theorem unparsable_store_witness:
  "users_module (unloaded ''oops'') = None \<and> parse_text (users_json (unloaded ''oops'')) = None
   \<and> users_resource (lit ''users://all'') (unloaded ''oops'') = (Inl SyntaxError, unloaded ''oops'')
   \<and> user_details (lit ''users://1/details'') (lit ''1'') (unloaded ''oops'') = (Inl SyntaxError, unloaded ''oops'')
   \<and> createUser (params_object ana) (unloaded ''oops'') = (Inl SyntaxError, unloaded ''oops'')
   \<and> parse_text (users_json (unloaded ''{}'')) = Some (JObj [])
   \<and> fst (user_details (lit ''users://1/details'') (lit ''1'') (unloaded ''{}'')) = Inl TypeError
   \<and> fst (createUser (params_object ana) (unloaded ''{}'')) = Inl TypeError
   \<and> users_json (snd (createUser (params_object ana) (unloaded ''{}''))) = users_json (unloaded ''{}'')"
proof -
  have a: "users_module (unloaded ''oops'') = None \<and> parse_text (users_json (unloaded ''oops'')) = None"
    by (simp add: unloaded_def parse_text_def parse_oops)
  have b: "users_module (unloaded ''{}'') = None \<and> parse_text (users_json (unloaded ''{}'')) = Some (JObj [])
           \<and> (\<forall>us. JObj [] \<noteq> JArr us)"
    by (simp add: unloaded_def parse_text_def parse_braces)
  note t1 = unparsable_store [of "unloaded ''oops''" "lit ''users://all''" "lit ''1''" "params_object ana"]
  note t2 = unparsable_store [of "unloaded ''oops''" "lit ''users://1/details''" "lit ''1''" "params_object ana"]
  note t3 = unparsable_store [of "unloaded ''{}''" "lit ''users://1/details''" "lit ''1''" "params_object ana" "JObj []"]
  have p1: "users_resource (lit ''users://all'') (unloaded ''oops'') = (Inl SyntaxError, unloaded ''oops'')"
    using t1 a by blast
  have p2: "user_details (lit ''users://1/details'') (lit ''1'') (unloaded ''oops'') = (Inl SyntaxError, unloaded ''oops'')"
    and p3: "createUser (params_object ana) (unloaded ''oops'') = (Inl SyntaxError, unloaded ''oops'')"
    using t2 a by blast+
  have p4: "user_details (lit ''users://1/details'') (lit ''1'') (unloaded ''{}'')
             = (Inl TypeError, (unloaded ''{}'')\<lparr>users_module := Some (JObj [])\<rparr>)"
    and p5: "createUser (params_object ana) (unloaded ''{}'')
             = (Inl TypeError, (unloaded ''{}'')\<lparr>users_module := Some (JObj [])\<rparr>)"
    using t3 b by blast+
  from a b p1 p2 p3 show ?thesis by (simp add: p4 p5)
qed

text \<open>
  C4 as the specification states it fails in three ways: an array whose
  elements are not user records is accepted, and \<open>createUser\<close> appends to it and
  rewrites the file; JSON that is not an array is served by the users resource; and
  once the module is loaded a file that has become unreadable is not noticed.
\<close>

theorem ill_formed_store_counterexample:
  "parse_text (users_json (unloaded ''[1]'')) = Some (JArr [JNum (Fin 1)])
   \<and> createUser (params_object ana) (unloaded ''[1]'')
       = (Inr 2,
          \<lparr>users_module = Some (JArr [JNum (Fin 1), new_record 2 (params_object ana)]),
           users_json = Stringified 2 (JArr [JNum (Fin 1), new_record 2 (params_object ana)])\<rparr>)
   \<and> users_json (unloaded ''[1]'') = Chars (lit ''[1]'')
   \<and> parse_text (users_json (unloaded ''{}'')) = Some (JObj [])
   \<and> fst (users_resource (lit ''users://all'') (unloaded ''{}''))
       = Inr (Contents (lit ''users://all'') (Some (Stringified 0 (JObj []))))
   \<and> parse_text (users_json (one_user_store\<lparr>users_json := Chars (lit ''oops'')\<rparr>)) = None
   \<and> fst (users_resource (lit ''users://all'') (one_user_store\<lparr>users_json := Chars (lit ''oops'')\<rparr>))
       = Inr (Contents (lit ''users://all'') (Some (Stringified 0 (JArr [ana_record]))))"
proof -
  have a: "parse_text (users_json (unloaded ''[1]'')) = Some (JArr [JNum (Fin 1)])"
    by (simp add: unloaded_def parse_text_def parse_one)
  have i: "fst (import_users (unloaded ''[1]'')) = Inr (JArr [JNum (Fin 1)])"
    using a by (simp add: import_users_def unloaded_def)
  have c: "createUser (params_object ana) (unloaded ''[1]'')
       = (Inr 2,
          \<lparr>users_module = Some (JArr [JNum (Fin 1), new_record 2 (params_object ana)]),
           users_json = Stringified 2 (JArr [JNum (Fin 1), new_record 2 (params_object ana)])\<rparr>)"
    using createUser_array [OF i, of "params_object ana"] by (simp add: numeral_2_eq_2)
  have b: "parse_text (users_json (unloaded ''{}'')) = Some (JObj [])"
    by (simp add: unloaded_def parse_text_def parse_braces)
  have r: "fst (users_resource (lit ''users://all'') (unloaded ''{}''))
       = Inr (Contents (lit ''users://all'') (Some (Stringified 0 (JObj []))))"
    using b by (simp add: users_resource_def import_users_def unloaded_def)
  have d: "parse_text (users_json (one_user_store\<lparr>users_json := Chars (lit ''oops'')\<rparr>)) = None"
    by (simp add: parse_text_def parse_oops)
  have s: "fst (users_resource (lit ''users://all'') (one_user_store\<lparr>users_json := Chars (lit ''oops'')\<rparr>))
       = Inr (Contents (lit ''users://all'') (Some (Stringified 0 (JArr [ana_record]))))"
    by (simp add: users_resource_loaded one_user_store_def)
  from a c b r d s show ?thesis by (simp add: unloaded_def)
qed

section \<open>Generated users\<close>

lemma parse_name_only: "JSON_parse (strip_fence (lit ''{\"name\":\"Bo\"}'')) = Some (JObj [(lit ''name'', JStr (lit ''Bo''))])"
  by code_simp

lemma random_user_failures:
  "create_random_user_tool OtherContent w = (Content (lit ''Failed to generate user data''), w)"
  "JSON_parse (strip_fence t) = None \<Longrightarrow>
   create_random_user_tool (TextContent t) w = (Content (lit ''Failed to generate user data''), w)"
  by (simp_all add: create_random_user_tool_def)

text \<open>
  The example of the specification: the fenced text of a user is stripped, parsed
  and appended to the empty store, and the tool answers with the id 1.
\<close>

lemma random_user_example:
  "create_random_user_tool
     (TextContent (lit ''```json'' @ [0x0A] @ bo_text @ [0x0A] @ lit ''```'')) empty_store
     = (Content (lit ''User 1 created successfully''),
        \<lparr>users_module = Some (JArr [new_record 1 (params_object bo)]),
         users_json = Stringified 2 (JArr [new_record 1 (params_object bo)])\<rparr>)"
proof -
  have "JSON_parse (strip_fence (lit ''```json'' @ [0x0A] @ bo_text @ [0x0A] @ lit ''```''))
          = Some (params_object bo)"
    unfolding bo_text_def by code_simp
  moreover have "fst (import_users empty_store) = Inr (JArr [])"
    by (simp add: import_empty_store)
  moreover have "created_message (Suc 0) = lit ''User 1 created successfully''"
    by (simp add: created_message_def decimal.simps lit_def)
  ultimately show ?thesis
    using createUser_array [of empty_store "[]" "params_object bo"]
    by (simp add: create_random_user_tool_def)
qed

text \<open>
  C7.  A generated text that is JSON but not a user (here an object with a name
  only) is appended as it is, and the tool reports success.
\<close>

theorem random_user_unvalidated:
  "create_random_user_tool (TextContent (lit ''{\"name\":\"Bo\"}'')) empty_store
     = (Content (created_message 1),
        \<lparr>users_module = Some (JArr [JObj [(lit ''id'', JNum (Fin 1)), (lit ''name'', JStr (lit ''Bo''))]]),
         users_json = Stringified 2 (JArr [JObj [(lit ''id'', JNum (Fin 1)), (lit ''name'', JStr (lit ''Bo''))]])\<rparr>)"
proof -
  have h: "fst (import_users empty_store) = Inr (JArr [])"
    by (simp add: import_empty_store)
  have r: "new_record (Suc 0) (JObj [(lit ''name'', JStr (lit ''Bo''))])
            = JObj [(lit ''id'', JNum (Fin 1)), (lit ''name'', JStr (lit ''Bo''))]"
    by (simp add: new_record_def own_properties_def lit_def)
  show ?thesis
    using createUser_array [OF h, of "JObj [(lit ''name'', JStr (lit ''Bo''))]"]
    by (simp add: create_random_user_tool_def parse_name_only r)
qed

section \<open>Reads and the module cache\<close>

text \<open>
  C8.  The first import of the process parses the backing file.  Once the module is
  loaded, the import, the users resource, the user-details resource and
  \<open>createUser\<close> work on the loaded array whatever the file holds, and a successful
  \<open>createUser\<close> leaves the array with the new record in the module and writes the
  file from it.
\<close>

theorem reads_use_module:
  "(users_module w = None \<and> parse_text (users_json w) = Some v \<longrightarrow>
      import_users w = (Inr v, w\<lparr>users_module := Some v\<rparr>))
   \<and> (users_module w = Some v \<longrightarrow>
        import_users (w\<lparr>users_json := c\<rparr>) = (Inr v, w\<lparr>users_json := c\<rparr>)
        \<and> fst (users_resource href (w\<lparr>users_json := c\<rparr>)) = Inr (Contents href (Some (Stringified 0 v)))
        \<and> fst (user_details href userId (w\<lparr>users_json := c\<rparr>)) = fst (user_details href userId w)
        \<and> fst (createUser params (w\<lparr>users_json := c\<rparr>)) = fst (createUser params w)
        \<and> users_module (snd (createUser params (w\<lparr>users_json := c\<rparr>)))
            = users_module (snd (createUser params w)))
   \<and> (fst (createUser params w) = Inr n \<longrightarrow>
        (\<exists>us. fst (import_users w) = Inr (JArr us)
           \<and> snd (createUser params w) =
               \<lparr>users_module = Some (JArr (us @ [new_record n params])),
                users_json = Stringified 2 (JArr (us @ [new_record n params]))\<rparr>))"
proof (intro conjI impI)
  show "import_users w = (Inr v, w\<lparr>users_module := Some v\<rparr>)"
    if "users_module w = None \<and> parse_text (users_json w) = Some v"
    using that by (simp add: import_users_first)
next
  assume m: "users_module w = Some v"
  show "import_users (w\<lparr>users_json := c\<rparr>) = (Inr v, w\<lparr>users_json := c\<rparr>)"
    using m by (simp add: import_users_loaded)
  show "fst (users_resource href (w\<lparr>users_json := c\<rparr>)) = Inr (Contents href (Some (Stringified 0 v)))"
    using m by (simp add: users_resource_loaded)
  show "fst (user_details href userId (w\<lparr>users_json := c\<rparr>)) = fst (user_details href userId w)"
    using m by (simp add: user_details_def import_users_loaded split: json.splits sum.splits)
  show "fst (createUser params (w\<lparr>users_json := c\<rparr>)) = fst (createUser params w)"
    using m by (simp add: createUser_def import_users_loaded Let_def split: json.splits)
  show "users_module (snd (createUser params (w\<lparr>users_json := c\<rparr>)))
            = users_module (snd (createUser params w))"
    using m by (simp add: createUser_def import_users_loaded Let_def split: json.splits)
next
  assume "fst (createUser params w) = Inr n"
  from createUser_Inr [OF this] obtain us where
    us: "fst (import_users w) = Inr (JArr us)" and n: "n = length us + 1" by blast
  show "\<exists>us. fst (import_users w) = Inr (JArr us)
           \<and> snd (createUser params w) =
               \<lparr>users_module = Some (JArr (us @ [new_record n params])),
                users_json = Stringified 2 (JArr (us @ [new_record n params]))\<rparr>"
    using us createUser_array [OF us, of params] n by auto
qed

theorem reads_use_module_witness:
  "users_module (unloaded ''[1]'') = None
   \<and> import_users (unloaded ''[1]'')
       = (Inr (JArr [JNum (Fin 1)]), (unloaded ''[1]'')\<lparr>users_module := Some (JArr [JNum (Fin 1)])\<rparr>)
   \<and> users_module one_user_store = Some (JArr [ana_record])
   \<and> fst (users_resource (lit ''users://all'') (one_user_store\<lparr>users_json := Chars (lit ''[]'')\<rparr>))
       = Inr (Contents (lit ''users://all'') (Some (Stringified 0 (JArr [ana_record]))))
   \<and> fst (createUser (params_object bo) (one_user_store\<lparr>users_json := Chars (lit ''[]'')\<rparr>)) = Inr 2
   \<and> snd (createUser (params_object bo) one_user_store) =
         \<lparr>users_module = Some (JArr ([ana_record] @ [new_record 2 (params_object bo)])),
          users_json = Stringified 2 (JArr ([ana_record] @ [new_record 2 (params_object bo)]))\<rparr>"
proof -
  have a: "users_module (unloaded ''[1]'') = None \<and>
           parse_text (users_json (unloaded ''[1]'')) = Some (JArr [JNum (Fin 1)])"
    by (simp add: unloaded_def parse_text_def parse_one)
  have b: "users_module one_user_store = Some (JArr [ana_record])"
    by (simp add: one_user_store_def)
  have i: "fst (import_users one_user_store) = Inr (JArr [ana_record])"
    by (simp add: import_users_loaded [OF b])
  have c: "fst (createUser (params_object bo) one_user_store) = Inr 2"
    using createUser_array [OF i, of "params_object bo"] by simp
  note t1 = reads_use_module [of "unloaded ''[1]''" "JArr [JNum (Fin 1)]"]
  note t2 = reads_use_module [of one_user_store "JArr [ana_record]" "Chars (lit ''[]'')"
      "lit ''users://all''" "[]" "params_object bo" 2]
  have p1: "import_users (unloaded ''[1]'')
       = (Inr (JArr [JNum (Fin 1)]), (unloaded ''[1]'')\<lparr>users_module := Some (JArr [JNum (Fin 1)])\<rparr>)"
    using t1 a by blast
  have p2: "fst (users_resource (lit ''users://all'') (one_user_store\<lparr>users_json := Chars (lit ''[]'')\<rparr>))
       = Inr (Contents (lit ''users://all'') (Some (Stringified 0 (JArr [ana_record]))))"
    and p3: "fst (createUser (params_object bo) (one_user_store\<lparr>users_json := Chars (lit ''[]'')\<rparr>))
              = fst (createUser (params_object bo) one_user_store)"
    using t2 b by blast+
  have p4: "\<exists>us. fst (import_users one_user_store) = Inr (JArr us)
           \<and> snd (createUser (params_object bo) one_user_store) =
               \<lparr>users_module = Some (JArr (us @ [new_record 2 (params_object bo)])),
                users_json = Stringified 2 (JArr (us @ [new_record 2 (params_object bo)]))\<rparr>"
    using t2 c by blast
  then have p5: "snd (createUser (params_object bo) one_user_store) =
         \<lparr>users_module = Some (JArr ([ana_record] @ [new_record 2 (params_object bo)])),
          users_json = Stringified 2 (JArr ([ana_record] @ [new_record 2 (params_object bo)]))\<rparr>"
    using i by auto
  from a b p1 p2 p3 c p5 show ?thesis by simp
qed

text \<open>
  C8 as the specification states it fails: after a first read of the empty store,
  the file is replaced by \<open>[1]\<close>, and the next read still answers the empty array,
  not what the file holds.
\<close>

theorem stale_read_counterexample:
  "fst (users_resource (lit ''users://all'') (unloaded ''[]'')) = Inr (Contents (lit ''users://all'') (Some (Stringified 0 (JArr []))))
   \<and> fst (users_resource (lit ''users://all'')
        ((snd (users_resource (lit ''users://all'') (unloaded ''[]'')))\<lparr>users_json := Chars (lit ''[1]'')\<rparr>))
       = Inr (Contents (lit ''users://all'') (Some (Stringified 0 (JArr []))))
   \<and> parse_text (users_json
        ((snd (users_resource (lit ''users://all'') (unloaded ''[]'')))\<lparr>users_json := Chars (lit ''[1]'')\<rparr>))
       = Some (JArr [JNum (Fin 1)])
   \<and> JArr [] \<noteq> JArr [JNum (Fin 1)]"
proof -
  have e: "unloaded ''[]'' = empty_store"
    by (simp add: unloaded_def empty_store_def)
  have r: "users_resource (lit ''users://all'') (unloaded ''[]'')
        = (Inr (Contents (lit ''users://all'') (Some (Stringified 0 (JArr [])))),
           empty_store\<lparr>users_module := Some (JArr [])\<rparr>)"
    by (simp add: e users_resource_def import_empty_store)
  show ?thesis
    by (simp add: r users_resource_loaded parse_text_def parse_one)
qed

section \<open>The fence around a generated text\<close>

subsection \<open>White space and the lexer\<close>

lemma takeWhile_append_none:
  "\<forall>x\<in>set r. \<not> P x \<Longrightarrow> takeWhile P (s @ r) = takeWhile P s"
  by (induction s) (auto simp: takeWhile_eq_Nil_iff)

lemma dropWhile_append_none:
  "\<forall>x\<in>set r. \<not> P x \<Longrightarrow> dropWhile P (s @ r) = dropWhile P s @ r"
  by (induction s) (auto simp: dropWhile_eq_self_iff)


lemma lex_digits_append:
  "\<forall>x\<in>set r. is_whitespace x \<Longrightarrow>
   lex_digits (s @ r) = map_option (\<lambda>(ds, t). (ds, t @ r)) (lex_digits s)"
proof -
  assume "\<forall>x\<in>set r. is_whitespace x"
  then have "\<forall>x\<in>set r. \<not> is_digit x" by (simp add: whitespace_not_digit)
  then show ?thesis
    by (simp add: lex_digits_def Let_def takeWhile_append_none dropWhile_append_none)
qed

lemma lex_int_append:
  "\<forall>x\<in>set r. is_whitespace x \<Longrightarrow>
   lex_int (s @ r) = map_option (\<lambda>(ds, t). (ds, t @ r)) (lex_int s)"
  by (cases "lex_digits s") (auto simp: lex_int_def lex_digits_append)

lemma lex_frac_append:
  "\<forall>x\<in>set r. is_whitespace x \<Longrightarrow>
   lex_frac (s @ r) = map_option (\<lambda>(ds, t). (ds, t @ r)) (lex_frac s)"
proof -
  assume r: "\<forall>x\<in>set r. is_whitespace x"
  have hd: "r = x # r' \<Longrightarrow> x \<noteq> ch CHR ''.''" for x r'
    using r by (auto simp: printable_not_whitespace)
  show ?thesis
    using hd r by (cases s; cases r) (auto simp: lex_frac_def lex_digits_append option.map_id)
qed

lemma lex_exp_append:
  "\<forall>x\<in>set r. is_whitespace x \<Longrightarrow>
   lex_exp (s @ r) = map_option (\<lambda>(e, t). (e, t @ r)) (lex_exp s)"
proof -
  assume r: "\<forall>x\<in>set r. is_whitespace x"
  have d: "lex_digits (t @ r) = map_option (\<lambda>(ds, t). (ds, t @ r)) (lex_digits t)" for t
    using r by (rule lex_digits_append)
  have dr: "lex_digits r = None"
    using d [of "[]"] by (simp add: lex_digits_def)
  have hd: "r = x # r' \<Longrightarrow> x \<noteq> ch CHR ''e'' \<and> x \<noteq> ch CHR ''E'' \<and> x \<noteq> ch CHR ''-'' \<and> x \<noteq> ch CHR ''+''"
    for x r'
    using r by (auto simp: printable_not_whitespace)
  show ?thesis
  proof (cases s)
    case Nil
    then show ?thesis using hd by (cases r) (auto simp: lex_exp_def)
  next
    case (Cons c s1)
    show ?thesis
    proof (cases s1)
      case Nil
      then show ?thesis
        using Cons hd dr by (cases r) (auto simp: lex_exp_def)
    next
      case (Cons g s2)
      then show ?thesis
        using \<open>s = c # s1\<close> d [of s2] d [of "g # s2"]
        by (auto simp: lex_exp_def option.map_comp comp_def case_prod_beta)
    qed
  qed
qed

lemma lex_number_append:
  "\<forall>x\<in>set r. is_whitespace x \<Longrightarrow>
   lex_number (s @ r) = map_option (\<lambda>(n, t). (n, t @ r)) (lex_number s)"
proof -
  assume r: "\<forall>x\<in>set r. is_whitespace x"
  have hd: "r = x # r' \<Longrightarrow> x \<noteq> ch CHR ''-''" for x r'
    using r by (auto simp: printable_not_whitespace)
  have i: "lex_int (t @ r) = map_option (\<lambda>(ds, t). (ds, t @ r)) (lex_int t)" for t
    using r by (rule lex_int_append)
  have ir: "lex_int r = None"
    using i [of "[]"] by (simp add: lex_int_def lex_digits_def)
  have f: "lex_frac (t @ r) = map_option (\<lambda>(ds, t). (ds, t @ r)) (lex_frac t)" for t
    using r by (rule lex_frac_append)
  have e: "lex_exp (t @ r) = map_option (\<lambda>(e, t). (e, t @ r)) (lex_exp t)" for t
    using r by (rule lex_exp_append)
  show ?thesis
  proof (cases s)
    case Nil
    then show ?thesis
      using hd ir by (cases r) (auto simp: lex_number_def lex_int_def lex_digits_def)
  next
    case (Cons c s1)
    then show ?thesis
      using i [of "c # s1"]
      by (auto simp: lex_number_def i f e split: option.splits)
  qed
qed

lemma strip_prefix_append:
  "\<forall>x\<in>set r. x \<notin> set p \<Longrightarrow>
   strip_prefix p (s @ r) = map_option (\<lambda>t. t @ r) (strip_prefix p s)"
proof (induction p s rule: strip_prefix.induct)
  case (1 ys)
  then show ?case by simp
next
  case (2 x xs)
  then show ?case by (cases r) auto
next
  case (3 x xs y ys)
  then show ?case by auto
qed

lemma lex_string_whitespace:
  "\<forall>x\<in>set r. is_whitespace x \<Longrightarrow> lex_string r = None"
proof (induction r)
  case Nil
  then show ?case by simp
next
  case (Cons x r)
  then have "x \<noteq> 0x22" and "x \<noteq> 0x5C"
    by (auto simp: printable_not_whitespace)
  with Cons show ?case by simp
qed


lemma lex_string_append:
  assumes r: "\<forall>x\<in>set r. is_whitespace x"
  shows "lex_string (s @ r) = map_option (\<lambda>(x, t). (x, t @ r)) (lex_string s)"
proof (induction s rule: lex_string.induct)
  case 1
  then show ?case using r by (simp add: lex_string_whitespace)
next
  case (2 c cs)
  have nh: "x \<in> set r \<Longrightarrow> \<not> is_hex_digit x" for x
    using r by (simp add: whitespace_not_hex)
  have hd: "r = x # r' \<Longrightarrow> x \<noteq> ch CHR ''u'' \<and> escape_char x = None" for x r'
    using r by (auto simp: printable_not_whitespace whitespace_no_escape)
  show ?case
  proof (cases "c = 0x22")
    case True
    then show ?thesis by simp
  next
    case q: False
    show ?thesis
    proof (cases "c = 0x5C")
      case False
      with q 2 show ?thesis
        by (auto simp: option.map_comp comp_def case_prod_beta)
    next
      case bs: True
      show ?thesis
      proof (cases cs)
        case Nil
        then show ?thesis using bs q hd by (cases r) auto
      next
        case (Cons e t)
        show ?thesis
        proof (cases "e = ch CHR ''u''")
          case False
          then show ?thesis
            using bs q Cons 2
            by (auto simp: option.map_comp comp_def case_prod_beta split: option.splits)
        next
          case u: True
          consider (long) h1 h2 h3 h4 t' where "t = h1 # h2 # h3 # h4 # t'"
            | (short) "length t < 4"
            by (cases t rule: list.exhaust; simp; rename_tac t1; case_tac t1; simp;
                rename_tac t2; case_tac t2; simp; rename_tac t3; case_tac t3; simp)
          then show ?thesis
          proof cases
            case long
            then show ?thesis
              using bs q Cons u 2
              by (auto simp: option.map_comp comp_def case_prod_beta)
          next
            case short
            then have rhs: "lex_string (c # cs) = None"
              using bs q Cons u by (auto split: list.splits)
            have "lex_string (c # cs @ r) = None"
              using bs q Cons u short nh
              by (auto split: list.splits simp: append_eq_Cons_conv)
            with rhs show ?thesis by simp
          qed
        qed
      qed
    qed
  qed
qed

lemma lex_not_json_ws:
  assumes "is_whitespace x" and "\<not> is_json_ws x"
  shows "tokenize (x # s) = None"
proof -
  have nd: "\<not> is_digit x"
    using assms(1) by (rule whitespace_not_digit)
  have ne: "x \<noteq> c" if "0x21 \<le> c" and "c \<le> 0x7E" for c
    using assms(1) that by (rule whitespace_not_printable)
  have chars: "x \<noteq> 123" "x \<noteq> 125" "x \<noteq> 91" "x \<noteq> 93" "x \<noteq> 58" "x \<noteq> 44"
    "x \<noteq> 34" "x \<noteq> 45" "x \<noteq> 116" "x \<noteq> 102" "x \<noteq> 110"
    by (simp_all add: ne)
  show ?thesis
    using assms(2) nd chars by (simp add: tokenize.simps lit_def)
qed

lemma lex_backtick: "tokenize (0x60 # s) = None"
  by (simp add: tokenize.simps is_json_ws_def is_digit_def lit_def)

lemma lex_leading:
  "\<forall>x\<in>set l. is_whitespace x \<Longrightarrow> tokenize (l @ s) = Some ts \<Longrightarrow> tokenize s = Some ts"
proof (induction l)
  case Nil
  then show ?case by simp
next
  case (Cons x l)
  show ?case
  proof (cases "is_json_ws x")
    case True
    with Cons show ?thesis by (simp add: tokenize.simps)
  next
    case False
    with Cons.prems show ?thesis by (simp add: lex_not_json_ws)
  qed
qed

lemma lex_whitespace_only:
  "\<forall>x\<in>set r. is_whitespace x \<Longrightarrow> tokenize r = Some ts \<Longrightarrow> ts = []"
  using lex_leading [of r "[]" ts] by (simp add: tokenize.simps)


lemma lex_trailing:
  assumes r: "\<forall>x\<in>set r. is_whitespace x"
  shows "tokenize (s @ r) = Some ts \<Longrightarrow> tokenize s = Some ts"
proof (induction s arbitrary: ts rule: tokenize.induct)
  case 1
  then show ?case using lex_whitespace_only [OF r] by (simp add: tokenize.simps)
next
  case (2 c cs)
  have lit_free: "\<forall>x\<in>set r. x \<notin> set (lit (a # as))"
    if "\<forall>y\<in>set (lit (a # as)). 0x21 \<le> y \<and> y \<le> 0x7E" for a as
    using r that whitespace_not_printable by blast
  have t: "strip_prefix (lit ''true'') ((c # cs) @ r) = map_option (\<lambda>t. t @ r) (strip_prefix (lit ''true'') (c # cs))"
    by (rule strip_prefix_append, rule lit_free) (simp add: lit_def)
  have f: "strip_prefix (lit ''false'') ((c # cs) @ r) = map_option (\<lambda>t. t @ r) (strip_prefix (lit ''false'') (c # cs))"
    by (rule strip_prefix_append, rule lit_free) (simp add: lit_def)
  have n: "strip_prefix (lit ''null'') ((c # cs) @ r) = map_option (\<lambda>t. t @ r) (strip_prefix (lit ''null'') (c # cs))"
    by (rule strip_prefix_append, rule lit_free) (simp add: lit_def)
  have str: "lex_string (cs @ r) = map_option (\<lambda>(x, t). (x, t @ r)) (lex_string cs)"
    using r by (rule lex_string_append)
  have num: "lex_number ((c # cs) @ r) = map_option (\<lambda>(n, t). (n, t @ r)) (lex_number (c # cs))"
    using r by (rule lex_number_append)
  from "2.prems" have p: "tokenize (c # (cs @ r)) = Some ts" by simp
  show ?case
  proof (cases "is_json_ws c")
    case True
    with p "2.IH"(1) show ?thesis by (simp add: tokenize.simps)
  next
    case ws: False
    consider (punct) "c = ch CHR ''{'' \<or> c = ch CHR ''}'' \<or> c = ch CHR ''['' \<or> c = ch CHR '']''
          \<or> c = ch CHR '':'' \<or> c = ch CHR '',''"
      | (string) "c = 0x22"
      | (number) "c = ch CHR ''-'' \<or> is_digit c" "c \<noteq> 0x22"
          "\<not> (c = ch CHR ''{'' \<or> c = ch CHR ''}'' \<or> c = ch CHR ''['' \<or> c = ch CHR '']''
          \<or> c = ch CHR '':'' \<or> c = ch CHR '','')"
      | (word) "\<not> (c = ch CHR ''-'' \<or> is_digit c)" "c \<noteq> 0x22"
          "\<not> (c = ch CHR ''{'' \<or> c = ch CHR ''}'' \<or> c = ch CHR ''['' \<or> c = ch CHR '']''
          \<or> c = ch CHR '':'' \<or> c = ch CHR '','')"
      by blast
    then show ?thesis
    proof cases
      case punct
      then show ?thesis
        using ws p "2.IH"(2-7) by (auto simp: tokenize.simps)
    next
      case string
      then show ?thesis
        using ws p "2.IH"(8) str
        by (auto simp: tokenize.simps split: option.splits)
    next
      case number
      then show ?thesis
        using ws p "2.IH"(9) num
        by (auto simp: tokenize.simps split: option.splits)
    next
      case word
      have step: "tokenize (c # cs) = Some ts"
        if "tokenize (c # cs @ r) = map_option (Cons tok) (tokenize (t' @ r))"
          and "tokenize (c # cs) = map_option (Cons tok) (tokenize t')"
          and "\<And>ts'. tokenize (t' @ r) = Some ts' \<Longrightarrow> tokenize t' = Some ts'" for tok t'
        using that p by (cases "tokenize (t' @ r)") auto
      show ?thesis
      proof (cases "strip_prefix (lit ''true'') (c # cs)")
        case (Some t')
        show ?thesis
        proof (rule step [of TTrue t'])
          show "tokenize (c # cs @ r) = map_option (Cons TTrue) (tokenize (t' @ r))"
            using ws word Some t by (simp add: tokenize.simps)
          show "tokenize (c # cs) = map_option (Cons TTrue) (tokenize t')"
            using ws word Some by (simp add: tokenize.simps)
          show "tokenize t' = Some ts'" if "tokenize (t' @ r) = Some ts'" for ts'
            using "2.IH"(12) [of t' ts'] ws word Some that by simp
        qed
      next
        case nt: None
        show ?thesis
        proof (cases "strip_prefix (lit ''false'') (c # cs)")
          case (Some t')
          show ?thesis
          proof (rule step [of TFalse t'])
            show "tokenize (c # cs @ r) = map_option (Cons TFalse) (tokenize (t' @ r))"
              using ws word nt Some t f by (simp add: tokenize.simps)
            show "tokenize (c # cs) = map_option (Cons TFalse) (tokenize t')"
              using ws word nt Some by (simp add: tokenize.simps)
            show "tokenize t' = Some ts'" if "tokenize (t' @ r) = Some ts'" for ts'
              using "2.IH"(11) [of t' ts'] ws word nt Some that by simp
          qed
        next
          case nf: None
          show ?thesis
          proof (cases "strip_prefix (lit ''null'') (c # cs)")
            case (Some t')
            show ?thesis
            proof (rule step [of TNull t'])
              show "tokenize (c # cs @ r) = map_option (Cons TNull) (tokenize (t' @ r))"
                using ws word nt nf Some t f n by (simp add: tokenize.simps)
              show "tokenize (c # cs) = map_option (Cons TNull) (tokenize t')"
                using ws word nt nf Some by (simp add: tokenize.simps)
              show "tokenize t' = Some ts'" if "tokenize (t' @ r) = Some ts'" for ts'
                using "2.IH"(10) [of t' ts'] ws word nt nf Some that by simp
            qed
          next
            case None
            then have "tokenize (c # cs @ r) = None"
              using ws word nt nf t f n by (simp add: tokenize.simps)
            with p show ?thesis by simp
          qed
        qed
      qed
    qed
  qed
qed


lemma trim_decompose:
  "\<exists>l r. s = l @ trim s @ r \<and> (\<forall>x\<in>set l. is_whitespace x) \<and> (\<forall>x\<in>set r. is_whitespace x)"
proof -
  let ?l = "takeWhile is_whitespace s"
  let ?m = "dropWhile is_whitespace s"
  let ?r = "rev (takeWhile is_whitespace (rev ?m))"
  have "rev ?m = takeWhile is_whitespace (rev ?m) @ dropWhile is_whitespace (rev ?m)"
    by simp
  then have "?m = trim s @ ?r"
    unfolding trim_def by (metis rev_append rev_rev_ident)
  then have "s = ?l @ trim s @ ?r"
    by (metis takeWhile_dropWhile_id)
  moreover have "\<forall>x\<in>set ?l. is_whitespace x"
    by (auto dest: set_takeWhileD)
  moreover have "\<forall>x\<in>set ?r. is_whitespace x"
    by (auto dest: set_takeWhileD)
  ultimately show ?thesis by blast
qed

lemma trim_between:
  assumes "\<forall>x\<in>set l. is_whitespace x" and "\<forall>x\<in>set r. is_whitespace x"
    and "\<not> is_whitespace a" and "\<not> is_whitespace b"
  shows "trim (l @ a # m @ b # r) = a # m @ [b]"
proof -
  have "dropWhile is_whitespace (l @ a # m @ b # r) = a # m @ b # r"
    using assms(1,3) by (simp add: dropWhile_append3)
  moreover have "dropWhile is_whitespace (rev r @ b # rev m @ [a]) = b # rev m @ [a]"
    using assms(2,4) by (simp add: dropWhile_append3)
  ultimately show ?thesis by (simp add: trim_def)
qed

lemma trim_Nil: "trim [] = []"
  by (simp add: trim_def)

lemma trim_head: "\<not> is_whitespace a \<Longrightarrow> \<exists>m'. trim (a # m) = a # m'"
proof -
  assume a: "\<not> is_whitespace a"
  obtain l r where d: "a # m = l @ trim (a # m) @ r" and l: "\<forall>x\<in>set l. is_whitespace x"
    using trim_decompose [of "a # m"] by blast
  have "l = []"
  proof (cases l)
    case (Cons x l')
    with d l a show ?thesis by auto
  qed simp
  with d have e: "a # m = trim (a # m) @ r" by simp
  have "trim (a # m) \<noteq> []"
    using a by (simp add: trim_def dropWhile_append3)
  with e show ?thesis by (cases "trim (a # m)") auto
qed

lemma JSON_parse_trim: "JSON_parse b = Some v \<Longrightarrow> JSON_parse (trim b) = Some v"
proof -
  assume p: "JSON_parse b = Some v"
  then obtain ts where ts: "tokenize b = Some ts" and v: "parse_value [] ts = Some v"
    by (auto simp: JSON_parse_def split: option.splits)
  obtain l r where d: "b = l @ trim b @ r" and l: "\<forall>x\<in>set l. is_whitespace x"
    and r: "\<forall>x\<in>set r. is_whitespace x"
    using trim_decompose [of b] by blast
  from ts d have "tokenize (l @ (trim b @ r)) = Some ts" by simp
  then have "tokenize (trim b @ r) = Some ts" using l lex_leading by blast
  then have "tokenize (trim b) = Some ts" using r lex_trailing by blast
  with v show ?thesis by (simp add: JSON_parse_def)
qed

lemma JSON_parse_Nil: "JSON_parse [] = None"
  by (simp add: JSON_parse_def tokenize.simps)

lemma JSON_parse_backtick: "JSON_parse (0x60 # s) = None"
  by (simp add: JSON_parse_def lex_backtick)

lemma strip_prefix_Some: "strip_prefix p s = Some r \<longleftrightarrow> s = p @ r"
  by (induction p s rule: strip_prefix.induct) auto

lemma remove_prefix_append: "remove_prefix p (p @ s) = s"
  using strip_prefix_Some [of p "p @ s" s] by (simp add: remove_prefix_def)

lemma remove_suffix_append: "remove_suffix p (s @ p) = s"
  using remove_prefix_append [of "rev p" "rev s"] by (simp add: remove_suffix_def)

lemma remove_suffix_cases: "remove_suffix p s = s \<or> s = remove_suffix p s @ p"
proof (cases "strip_prefix (rev p) (rev s)")
  case None
  then show ?thesis by (simp add: remove_suffix_def remove_prefix_def)
next
  case (Some q)
  then have "rev s = rev p @ q" by (simp add: strip_prefix_Some)
  then have "s = rev q @ p" by (metis rev_append rev_rev_ident)
  moreover have "remove_suffix p s = rev q"
    using Some by (simp add: remove_suffix_def remove_prefix_def)
  ultimately show ?thesis by simp
qed

lemma backtick_not_whitespace: "\<not> is_whitespace 0x60"
  by (simp add: is_whitespace_def)


lemma fence_chars:
  "lit ''```json'' = 0x60 # 0x60 # 0x60 # lit ''json''" "lit ''```'' = [0x60, 0x60, 0x60]"
  by (simp_all add: lit_def)

lemma strip_fence_fenced:
  assumes "\<forall>x\<in>set l. is_whitespace x" and "\<forall>x\<in>set r. is_whitespace x"
  shows "strip_fence (l @ lit ''```json'' @ body @ lit ''```'' @ r) = trim body"
proof -
  have "trim (l @ 0x60 # (0x60 # 0x60 # lit ''json'' @ body @ [0x60, 0x60]) @ 0x60 # r)
          = 0x60 # (0x60 # 0x60 # lit ''json'' @ body @ [0x60, 0x60]) @ [0x60]"
    using assms backtick_not_whitespace backtick_not_whitespace by (rule trim_between)
  then have "trim (l @ lit ''```json'' @ body @ lit ''```'' @ r)
          = lit ''```json'' @ (body @ lit ''```'')"
    by (simp add: fence_chars)
  then show ?thesis
    by (simp only: strip_fence_def remove_prefix_append remove_suffix_append)
qed

lemma strip_fence_plain:
  assumes "strip_prefix (lit ''```'') (trim t) = Some rest"
    and "strip_prefix (lit ''```json'') (trim t) = None"
  shows "strip_fence t = [] \<or> (\<exists>m. strip_fence t = 0x60 # m)"
proof -
  let ?s = "remove_suffix (lit ''```'') (trim t)"
  have t: "trim t = 0x60 # 0x60 # 0x60 # rest"
    using assms(1) by (simp add: strip_prefix_Some lit_def)
  have sf: "strip_fence t = trim ?s"
    using assms(2) by (simp add: strip_fence_def remove_prefix_def)
  have "?s = [] \<or> (\<exists>m. ?s = 0x60 # m)"
  proof (cases "?s")
    case (Cons x m)
    from remove_suffix_cases [of "lit ''```''" "trim t"]
    have "x = 0x60" using t Cons by (auto simp: lit_def)
    with Cons show ?thesis by simp
  qed simp
  then show ?thesis
    using sf trim_head [OF backtick_not_whitespace] by (auto simp: trim_Nil)
qed

lemma parse_bo_text: "JSON_parse ([0x0A] @ bo_text @ [0x0A]) = Some (params_object bo)"
  unfolding bo_text_def by code_simp

lemma trim_bo_text: "trim ([0x0A] @ bo_text @ [0x0A]) = bo_text"
  unfolding bo_text_def by code_simp

lemma trim_plain_fence:
  "strip_prefix (lit ''```'') (trim (lit ''```'' @ [0x0A] @ bo_text @ [0x0A] @ lit ''```''))
     = Some ([0x0A] @ bo_text @ [0x0A] @ lit ''```'')
   \<and> strip_prefix (lit ''```json'') (trim (lit ''```'' @ [0x0A] @ bo_text @ [0x0A] @ lit ''```'')) = None"
  unfolding bo_text_def by code_simp

lemma created_message_1: "created_message (Suc 0) = lit ''User 1 created successfully''"
  by (simp add: created_message_def decimal.simps lit_def)

text \<open>
  C10.  A text that is, between white space, \<open>```json\<close>, a body that \<open>JSON.parse\<close>
  accepts and \<open>```\<close> is stripped to the trimmed body, which parses to the same value:
  the tool hands this value to \<open>createUser\<close> and answers as \<open>createUser\<close> fares, on
  a store that is an array with the new id and the value appended.
  A text that opens with \<open>```\<close> but not with \<open>```json\<close> keeps its fence (or is
  emptied, when it is nothing but the fence): \<open>JSON.parse\<close> rejects it and the tool
  answers \<open>Failed to generate user data\<close> without touching the store.
\<close>

theorem fence_stripping:
  "((\<forall>x\<in>set l. is_whitespace x) \<and> (\<forall>x\<in>set r. is_whitespace x) \<and> JSON_parse body = Some v \<longrightarrow>
      strip_fence (l @ lit ''```json'' @ body @ lit ''```'' @ r) = trim body
      \<and> JSON_parse (strip_fence (l @ lit ''```json'' @ body @ lit ''```'' @ r)) = Some v
      \<and> create_random_user_tool (TextContent (l @ lit ''```json'' @ body @ lit ''```'' @ r)) w
          = (case createUser v w of
               (Inr new_id, w') \<Rightarrow> (Content (created_message new_id), w')
             | (Inl e, w') \<Rightarrow> (Content (lit ''Failed to generate user data''), w'))
      \<and> (fst (import_users w) = Inr (JArr us) \<longrightarrow>
           create_random_user_tool (TextContent (l @ lit ''```json'' @ body @ lit ''```'' @ r)) w
             = (Content (created_message (length us + 1)),
                \<lparr>users_module = Some (JArr (us @ [new_record (length us + 1) v])),
                 users_json = Stringified 2 (JArr (us @ [new_record (length us + 1) v]))\<rparr>)))
   \<and> (strip_prefix (lit ''```'') (trim t) = Some rest \<and> strip_prefix (lit ''```json'') (trim t) = None \<longrightarrow>
      JSON_parse (strip_fence t) = None
      \<and> create_random_user_tool (TextContent t) w = (Content (lit ''Failed to generate user data''), w))"
proof (intro conjI impI)
  assume a: "(\<forall>x\<in>set l. is_whitespace x) \<and> (\<forall>x\<in>set r. is_whitespace x) \<and> JSON_parse body = Some v"
  then show s: "strip_fence (l @ lit ''```json'' @ body @ lit ''```'' @ r) = trim body"
    by (simp add: strip_fence_fenced)
  show p: "JSON_parse (strip_fence (l @ lit ''```json'' @ body @ lit ''```'' @ r)) = Some v"
    using a by (simp only: s JSON_parse_trim)
  show h: "create_random_user_tool (TextContent (l @ lit ''```json'' @ body @ lit ''```'' @ r)) w
          = (case createUser v w of
               (Inr new_id, w') \<Rightarrow> (Content (created_message new_id), w')
             | (Inl e, w') \<Rightarrow> (Content (lit ''Failed to generate user data''), w'))"
    by (simp add: create_random_user_tool_def p)
  assume "fst (import_users w) = Inr (JArr us)"
  then show "create_random_user_tool (TextContent (l @ lit ''```json'' @ body @ lit ''```'' @ r)) w
             = (Content (created_message (length us + 1)),
                \<lparr>users_module = Some (JArr (us @ [new_record (length us + 1) v])),
                 users_json = Stringified 2 (JArr (us @ [new_record (length us + 1) v]))\<rparr>)"
    by (simp only: h createUser_array prod.case sum.case)
next
  assume a: "strip_prefix (lit ''```'') (trim t) = Some rest \<and> strip_prefix (lit ''```json'') (trim t) = None"
  then have "strip_fence t = [] \<or> (\<exists>m. strip_fence t = 0x60 # m)"
    using strip_fence_plain by blast
  then show n: "JSON_parse (strip_fence t) = None"
    by (auto simp: JSON_parse_Nil JSON_parse_backtick)
  show "create_random_user_tool (TextContent t) w = (Content (lit ''Failed to generate user data''), w)"
    by (simp add: create_random_user_tool_def n)
qed

theorem fence_stripping_witness:
  "is_whitespace 0x20 \<and> is_whitespace 0x0A
   \<and> JSON_parse ([0x0A] @ bo_text @ [0x0A]) = Some (params_object bo)
   \<and> fst (import_users empty_store) = Inr (JArr [])
   \<and> strip_fence ([0x20] @ lit ''```json'' @ ([0x0A] @ bo_text @ [0x0A]) @ lit ''```'' @ [0x0A]) = bo_text
   \<and> JSON_parse (strip_fence ([0x20] @ lit ''```json'' @ ([0x0A] @ bo_text @ [0x0A]) @ lit ''```'' @ [0x0A]))
       = Some (params_object bo)
   \<and> create_random_user_tool
        (TextContent ([0x20] @ lit ''```json'' @ ([0x0A] @ bo_text @ [0x0A]) @ lit ''```'' @ [0x0A]))
        empty_store
       = (Content (lit ''User 1 created successfully''),
          \<lparr>users_module = Some (JArr [new_record 1 (params_object bo)]),
           users_json = Stringified 2 (JArr [new_record 1 (params_object bo)])\<rparr>)
   \<and> JSON_parse (strip_fence (lit ''```'' @ [0x0A] @ bo_text @ [0x0A] @ lit ''```'')) = None
   \<and> create_random_user_tool (TextContent (lit ''```'' @ [0x0A] @ bo_text @ [0x0A] @ lit ''```'')) empty_store
       = (Content (lit ''Failed to generate user data''), empty_store)"
proof -
  have ws: "(\<forall>x\<in>set [0x20 :: jschar]. is_whitespace x) \<and> (\<forall>x\<in>set [0x0A :: jschar]. is_whitespace x)"
    by (simp add: is_whitespace_def)
  have i: "fst (import_users empty_store) = Inr (JArr [])"
    by (simp add: import_empty_store)
  note t = fence_stripping [of "[0x20]" "[0x0A]" "[0x0A] @ bo_text @ [0x0A]" "params_object bo"
      empty_store "[]"
      "lit ''```'' @ [0x0A] @ bo_text @ [0x0A] @ lit ''```''" "[0x0A] @ bo_text @ [0x0A] @ lit ''```''"]
  have a: "strip_fence ([0x20] @ lit ''```json'' @ ([0x0A] @ bo_text @ [0x0A]) @ lit ''```'' @ [0x0A])
             = trim ([0x0A] @ bo_text @ [0x0A])"
    and b: "JSON_parse (strip_fence ([0x20] @ lit ''```json'' @ ([0x0A] @ bo_text @ [0x0A]) @ lit ''```'' @ [0x0A]))
       = Some (params_object bo)"
    using t ws parse_bo_text by blast+
  have e: "create_random_user_tool
        (TextContent ([0x20] @ lit ''```json'' @ ([0x0A] @ bo_text @ [0x0A]) @ lit ''```'' @ [0x0A]))
        empty_store
       = (Content (created_message (length ([] :: json list) + 1)),
          \<lparr>users_module = Some (JArr ([] @ [new_record (length ([] :: json list) + 1) (params_object bo)])),
           users_json = Stringified 2 (JArr ([] @ [new_record (length ([] :: json list) + 1) (params_object bo)]))\<rparr>)"
    using t ws parse_bo_text i by blast
  have c: "JSON_parse (strip_fence (lit ''```'' @ [0x0A] @ bo_text @ [0x0A] @ lit ''```'')) = None"
    and d: "create_random_user_tool (TextContent (lit ''```'' @ [0x0A] @ bo_text @ [0x0A] @ lit ''```'')) empty_store
       = (Content (lit ''Failed to generate user data''), empty_store)"
    using t trim_plain_fence by blast+
  have ws': "is_whitespace 0x20 \<and> is_whitespace 0x0A"
    by (simp add: is_whitespace_def)
  have e': "create_random_user_tool
        (TextContent ([0x20] @ lit ''```json'' @ ([0x0A] @ bo_text @ [0x0A]) @ lit ''```'' @ [0x0A]))
        empty_store
       = (Content (lit ''User 1 created successfully''),
          \<lparr>users_module = Some (JArr [new_record 1 (params_object bo)]),
           users_json = Stringified 2 (JArr [new_record 1 (params_object bo)])\<rparr>)"
    using e by (simp add: created_message_1)
  from ws' parse_bo_text i a b e' c d show ?thesis
    by (simp only: trim_bo_text simp_thms)
qed

end
